theory Spec2Isabelle
  imports Main "HOL-Library.Word"
begin

unbundle bit_operations_syntax

section \<open>The Sudoku solver of \<open>0037_sudoku_solver.cpp\<close>\<close>

text \<open>
  The C++ class \<open>Solution\<close> holds three arrays of nine \<open>int\<close> masks and the vector
  \<open>empties\<close>; the board is a \<open>vector<vector<char>>\<close> passed by reference. The
  model passes the object and the board explicitly and returns them updated. An access
  outside a vector or array, and a shift by a count outside \<open>0..31\<close>, are undefined
  behaviour in C++; the model returns \<open>None\<close> there.
\<close>

type_synonym board = "char list list"

record solver =
  rowMask :: "32 word list"
  colMask :: "32 word list"
  boxMask :: "32 word list"
  empties :: "(nat \<times> nat) list"

type_synonym config = "solver \<times> board"

text \<open>A freshly constructed object: \<open>int rowMask[9] = {0}\<close> and an empty vector.\<close>

definition fresh :: solver where
  "fresh = \<lparr>rowMask = replicate 9 0, colMask = replicate 9 0, boxMask = replicate 9 0,
            empties = []\<rparr>"

definition boxIndex :: "nat \<Rightarrow> nat \<Rightarrow> nat" where
  "boxIndex r c = (r div 3) * 3 + (c div 3)"

text \<open>\<open>1 << d\<close> and \<open>static_cast<char>('1' + d)\<close>.\<close>

definition bit_of :: "nat \<Rightarrow> 32 word" where
  "bit_of d = push_bit d 1"

definition digit_char :: "nat \<Rightarrow> char" where
  "digit_char d = char_of (of_char CHR ''1'' + d)"

definition in_bounds :: "board \<Rightarrow> nat \<Rightarrow> nat \<Rightarrow> bool" where
  "in_bounds board r c = (r < length board \<and> c < length (board ! r))"

definition set_cell :: "board \<Rightarrow> nat \<Rightarrow> nat \<Rightarrow> char \<Rightarrow> board" where
  "set_cell board r c ch = board[r := (board ! r)[c := ch]]"

subsection \<open>\<open>init\<close>\<close>

text \<open>The body of the inner loop of \<open>init\<close> for the cell \<open>(r, c)\<close>.\<close>

definition init_cell :: "board \<Rightarrow> nat \<Rightarrow> nat \<Rightarrow> solver \<Rightarrow> solver option" where
  "init_cell board r c st =
     (if \<not> in_bounds board r c then None
      else
        let ch = board ! r ! c in
        if ch = CHR ''.'' then Some (st\<lparr>empties := empties st @ [(r, c)]\<rparr>)
        else
          let d = int (of_char ch) - int (of_char CHR ''1'') in
          if d < 0 \<or> 32 \<le> d then None
          else
            let bit = bit_of (nat d) in
            Some (st\<lparr>rowMask := (rowMask st)[r := rowMask st ! r OR bit],
                     colMask := (colMask st)[c := colMask st ! c OR bit],
                     boxMask := (boxMask st)[boxIndex r c := boxMask st ! boxIndex r c OR bit]\<rparr>))"

text \<open>\<open>for (int c = 0; c < 9; ++c)\<close> and \<open>for (int r = 0; r < 9; ++r)\<close>, over the
  index ranges still to visit.\<close>

fun init_cols :: "board \<Rightarrow> nat \<Rightarrow> nat list \<Rightarrow> solver \<Rightarrow> solver option" where
  "init_cols board r [] st = Some st"
| "init_cols board r (c # cs) st =
     (case init_cell board r c st of
        None \<Rightarrow> None
      | Some st' \<Rightarrow> init_cols board r cs st')"

fun init_rows :: "board \<Rightarrow> nat list \<Rightarrow> solver \<Rightarrow> solver option" where
  "init_rows board [] st = Some st"
| "init_rows board (r # rs) st =
     (case init_cols board r [0..<9] st of
        None \<Rightarrow> None
      | Some st' \<Rightarrow> init_rows board rs st')"

definition init :: "solver \<Rightarrow> board \<Rightarrow> solver option" where
  "init st board = init_rows board [0..<9] (st\<lparr>empties := []\<rparr>)"

subsection \<open>\<open>dfs\<close>\<close>

text \<open>The two blocks of the loop body of \<open>dfs\<close>, marked \<open>// place digit\<close> and
  \<open>// backtrack\<close> in the source.\<close>

definition place :: "solver \<Rightarrow> board \<Rightarrow> nat \<Rightarrow> nat \<Rightarrow> nat \<Rightarrow> config" where
  "place st board r c d =
     (st\<lparr>rowMask := (rowMask st)[r := rowMask st ! r OR bit_of d],
         colMask := (colMask st)[c := colMask st ! c OR bit_of d],
         boxMask := (boxMask st)[boxIndex r c := boxMask st ! boxIndex r c OR bit_of d]\<rparr>,
      set_cell board r c (digit_char d))"

definition backtrack :: "solver \<Rightarrow> board \<Rightarrow> nat \<Rightarrow> nat \<Rightarrow> nat \<Rightarrow> config" where
  "backtrack st board r c d =
     (st\<lparr>rowMask := (rowMask st)[r := rowMask st ! r AND NOT (bit_of d)],
         colMask := (colMask st)[c := colMask st ! c AND NOT (bit_of d)],
         boxMask := (boxMask st)[boxIndex r c := boxMask st ! boxIndex r c AND NOT (bit_of d)]\<rparr>,
      set_cell board r c CHR ''.'')"

text \<open>
  \<open>dfs\<close> is the function, \<open>dfs_loop\<close> its \<open>for\<close> loop from candidate \<open>d\<close> on, with the
  locals \<open>r\<close>, \<open>c\<close> and \<open>used\<close> of the enclosing call. The result is the returned
  boolean, the object and the board on return, and the list of the configurations the
  call went through: one entry after each placement and one after each removal. The
  list is a history only; nothing reads it.
\<close>

function dfs :: "solver \<Rightarrow> board \<Rightarrow> nat \<Rightarrow> (bool \<times> solver \<times> board \<times> config list) option"
  and dfs_loop :: "solver \<Rightarrow> board \<Rightarrow> nat \<Rightarrow> nat \<Rightarrow> nat \<Rightarrow> 32 word \<Rightarrow> nat
                     \<Rightarrow> (bool \<times> solver \<times> board \<times> config list) option"
where
  "dfs st board idx =
     (if idx = length (empties st) then Some (True, st, board, [])
      else if length (empties st) < idx then None
      else
        let r = fst (empties st ! idx); c = snd (empties st ! idx) in
        if 9 \<le> r \<or> 9 \<le> c then None
        else
          let used = rowMask st ! r OR colMask st ! c OR boxMask st ! boxIndex r c
          in dfs_loop st board idx r c used 0)"
| "dfs_loop st board idx r c used d =
     (if 9 \<le> d then Some (False, st, board, [])
      else if used AND bit_of d \<noteq> 0 then dfs_loop st board idx r c used (d + 1)
      else if \<not> in_bounds board r c then None
      else
        let placed = place st board r c d in
        case dfs (fst placed) (snd placed) (idx + 1) of
          None \<Rightarrow> None
        | Some (ok, st2, board2, tr) \<Rightarrow>
            if ok then Some (True, st2, board2, placed # tr)
            else if \<not> in_bounds board2 r c then None
            else
              let undone = backtrack st2 board2 r c d in
              (case dfs_loop (fst undone) (snd undone) idx r c used (d + 1) of
                 None \<Rightarrow> None
               | Some (ok', st4, board4, tr') \<Rightarrow>
                   Some (ok', st4, board4, placed # tr @ undone # tr')))"
  by pat_completeness auto

subsection \<open>\<open>solveSudoku\<close>\<close>

text \<open>
  \<open>solveSudoku\<close> returns nothing and drops the boolean of \<open>dfs\<close>; the model returns
  the object and the board as the call leaves them, and the history: the configuration
  after \<open>init\<close> followed by the ones \<open>dfs\<close> went through.
\<close>

definition solveSudoku :: "solver \<Rightarrow> board \<Rightarrow> (solver \<times> board \<times> config list) option" where
  "solveSudoku st board =
     (case init st board of
        None \<Rightarrow> None
      | Some st0 \<Rightarrow>
          (case dfs st0 board 0 of
             None \<Rightarrow> None
           | Some (ok, st', board', tr) \<Rightarrow> Some (st', board', (st0, board) # tr)))"

section \<open>Boards, units and solutions\<close>

definition cell :: "board \<Rightarrow> nat \<times> nat \<Rightarrow> char" where
  "cell b p = b ! fst p ! snd p"

text \<open>A 9x9 board of the characters \<open>'1'..'9'\<close> and \<open>'.'\<close>.\<close>

definition board_ok :: "board \<Rightarrow> bool" where
  "board_ok b =
     (length b = 9 \<and>
      (\<forall>row\<in>set b. length row = 9 \<and> (\<forall>ch\<in>set row. ch \<in> set ''123456789.'')))"

text \<open>The cells in row-major order, and the cells of each row, column and box.\<close>

definition all_cells :: "(nat \<times> nat) list" where
  "all_cells = [(r, c). r \<leftarrow> [0..<9], c \<leftarrow> [0..<9]]"

definition row_cells :: "nat \<Rightarrow> (nat \<times> nat) list" where
  "row_cells k = [(k, c). c \<leftarrow> [0..<9]]"

definition col_cells :: "nat \<Rightarrow> (nat \<times> nat) list" where
  "col_cells k = [(r, k). r \<leftarrow> [0..<9]]"

definition box_cells :: "nat \<Rightarrow> (nat \<times> nat) list" where
  "box_cells k = [(r, c). r \<leftarrow> [0..<9], c \<leftarrow> [0..<9], boxIndex r c = k]"

text \<open>How often the digit with bit position \<open>n\<close> (the character \<open>'1' + n\<close>) stands in
  the given cells.\<close>

definition occurrences :: "board \<Rightarrow> (nat \<times> nat) list \<Rightarrow> nat \<Rightarrow> nat" where
  "occurrences b cells n = length (filter (\<lambda>p. cell b p = digit_char n) cells)"

text \<open>Mask consistency: a bit of a mask is set exactly when its digit stands in some
  cell of that row, column or box.\<close>

definition mask_consistent :: "solver \<Rightarrow> board \<Rightarrow> bool" where
  "mask_consistent st b =
     (\<forall>k\<in>{0..<9}. \<forall>n\<in>{0..<32}.
        (bit (rowMask st ! k) n \<longleftrightarrow> n < 9 \<and> 0 < occurrences b (row_cells k) n) \<and>
        (bit (colMask st ! k) n \<longleftrightarrow> n < 9 \<and> 0 < occurrences b (col_cells k) n) \<and>
        (bit (boxMask st ! k) n \<longleftrightarrow> n < 9 \<and> 0 < occurrences b (box_cells k) n))"

text \<open>The filled cells respect the rules: no digit twice in a row, column or box.\<close>

definition prefix_valid :: "board \<Rightarrow> bool" where
  "prefix_valid b =
     (\<forall>k\<in>{0..<9}. \<forall>n\<in>{0..<9}.
        occurrences b (row_cells k) n \<le> 1 \<and>
        occurrences b (col_cells k) n \<le> 1 \<and>
        occurrences b (box_cells k) n \<le> 1)"

text \<open>A completed grid: every cell holds a digit, and every row, column and box holds
  each digit exactly once.\<close>

definition solved :: "board \<Rightarrow> bool" where
  "solved b =
     (board_ok b \<and> (\<forall>p\<in>set all_cells. cell b p \<noteq> CHR ''.'') \<and>
      (\<forall>k\<in>{0..<9}. \<forall>n\<in>{0..<9}.
        occurrences b (row_cells k) n = 1 \<and>
        occurrences b (col_cells k) n = 1 \<and>
        occurrences b (box_cells k) n = 1))"

text \<open>\<open>s\<close> keeps every filled cell of \<open>b\<close>.\<close>

definition extends :: "board \<Rightarrow> board \<Rightarrow> bool" where
  "extends b s = (\<forall>p\<in>set all_cells. cell b p \<noteq> CHR ''.'' \<longrightarrow> cell s p = cell b p)"

definition is_solution :: "board \<Rightarrow> board \<Rightarrow> bool" where
  "is_solution b s = (solved s \<and> extends b s)"

text \<open>Well-formed objects: the three arrays have nine entries, as \<open>int rowMask[9]\<close>
  declares.\<close>

definition solver_ok :: "solver \<Rightarrow> bool" where
  "solver_ok st = (length (rowMask st) = 9 \<and> length (colMask st) = 9 \<and> length (boxMask st) = 9)"

subsection \<open>The rules, cell by cell\<close>

text \<open>The same notions over pairs of cells: two cells of the grid are peers when they
  share a row, a column or a box, and a board has no clash when no digit stands in two
  different peers.\<close>

definition grid :: "(nat \<times> nat) set" where
  "grid = {0..<9} \<times> {0..<9}"

definition peer :: "nat \<times> nat \<Rightarrow> nat \<times> nat \<Rightarrow> bool" where
  "peer p q =
     (fst p = fst q \<or> snd p = snd q \<or> boxIndex (fst p) (snd p) = boxIndex (fst q) (snd q))"

definition no_clash :: "board \<Rightarrow> bool" where
  "no_clash b =
     (\<forall>p\<in>grid. \<forall>q\<in>grid. p \<noteq> q \<and> peer p q \<and> cell b p \<noteq> CHR ''.'' \<longrightarrow> cell b p \<noteq> cell b q)"

text \<open>What a mask array \<open>ms\<close> records of a board, for the unit index \<open>u\<close> of a cell (its
  row, its column or its box): bit \<open>n\<close> of \<open>ms[k]\<close> is set exactly when the digit
  stands in a cell of unit \<open>k\<close>.\<close>

definition box_of :: "nat \<times> nat \<Rightarrow> nat" where
  "box_of p = boxIndex (fst p) (snd p)"

definition unit_sem :: "32 word list \<Rightarrow> (nat \<times> nat \<Rightarrow> nat) \<Rightarrow> board \<Rightarrow> bool" where
  "unit_sem ms u b =
     (\<forall>k<9. \<forall>n. bit (ms ! k) n \<longleftrightarrow> n < 9 \<and> (\<exists>p\<in>grid. u p = k \<and> cell b p = digit_char n))"

subsection \<open>The invariant of the search\<close>

text \<open>
  At a call \<open>dfs(board, idx)\<close> made by \<open>solveSudoku\<close>: the entries of \<open>empties\<close> are
  different cells of the grid, and the empty cells of the board are exactly the entries
  from \<open>idx\<close> on.
\<close>

definition pending_ok :: "solver \<Rightarrow> board \<Rightarrow> nat \<Rightarrow> bool" where
  "pending_ok st b idx =
     (idx \<le> length (empties st) \<and> distinct (empties st) \<and> set (empties st) \<subseteq> grid \<and>
      (\<forall>p\<in>grid. cell b p = CHR ''.'' \<longleftrightarrow> p \<in> set (drop idx (empties st))))"

definition search_inv :: "solver \<Rightarrow> board \<Rightarrow> nat \<Rightarrow> bool" where
  "search_inv st b idx = (solver_ok st \<and> board_ok b \<and> mask_consistent st b \<and> pending_ok st b idx)"

text \<open>
  What a call that started in \<open>(st, b)\<close> leaves behind: \<open>empties\<close> untouched; every
  configuration of the history well-formed, mask-consistent and an extension of \<open>b\<close>; on
  success a full board that extends \<open>b\<close>; on failure the configuration of the call, and
  no solution of \<open>b\<close> outside \<open>excluded\<close>.
\<close>

definition config_ok :: "solver \<Rightarrow> board \<Rightarrow> config \<Rightarrow> bool" where
  "config_ok st b cfg =
     (solver_ok (fst cfg) \<and> board_ok (snd cfg) \<and> mask_consistent (fst cfg) (snd cfg) \<and>
      extends b (snd cfg) \<and> empties (fst cfg) = empties st)"

definition run_ok ::
  "solver \<Rightarrow> board \<Rightarrow> (board \<Rightarrow> bool) \<Rightarrow> bool \<times> solver \<times> board \<times> config list \<Rightarrow> bool" where
  "run_ok st b excluded res =
     (case res of (ok, st', b', tr) \<Rightarrow>
        empties st' = empties st \<and> (\<forall>cfg\<in>set tr. config_ok st b cfg) \<and>
        (if ok then search_inv st' b' (length (empties st)) \<and> extends b b' \<and>
                    (no_clash b \<longrightarrow> no_clash b')
         else st' = st \<and> b' = b \<and> (\<forall>s. is_solution b s \<longrightarrow> excluded s)))"

subsection \<open>The effect of a scan\<close>

text \<open>What \<open>init\<close> has done to the object once it has visited the given cells of the
  board, in that order: the empty ones are appended to \<open>empties\<close>, and the bit of every
  digit found is added to the masks of its row, column and box.\<close>

definition unit_add ::
  "32 word list \<Rightarrow> 32 word list \<Rightarrow> (nat \<times> nat \<Rightarrow> nat) \<Rightarrow> board \<Rightarrow> (nat \<times> nat) list \<Rightarrow> bool" where
  "unit_add ms ms' u b cells =
     (\<forall>k<9. \<forall>n. bit (ms' ! k) n \<longleftrightarrow>
        bit (ms ! k) n \<or> (n < 9 \<and> (\<exists>p\<in>set cells. u p = k \<and> cell b p = digit_char n)))"

definition scanned :: "board \<Rightarrow> (nat \<times> nat) list \<Rightarrow> solver \<Rightarrow> solver \<Rightarrow> bool" where
  "scanned b cells st st' =
     (solver_ok st' \<and>
      empties st' = empties st @ filter (\<lambda>p. cell b p = CHR ''.'') cells \<and>
      unit_add (rowMask st) (rowMask st') fst b cells \<and>
      unit_add (colMask st) (colMask st') snd b cells \<and>
      unit_add (boxMask st) (boxMask st') box_of b cells)"

text \<open>A check of the rules that is cheap to evaluate: in every row, column and box the
  characters other than \<open>'.'\<close> are pairwise different.\<close>

definition units_distinct :: "board \<Rightarrow> bool" where
  "units_distinct b =
     (\<forall>k\<in>{0..<9}.
        distinct (filter (\<lambda>ch. ch \<noteq> CHR ''.'') (map (cell b) (row_cells k))) \<and>
        distinct (filter (\<lambda>ch. ch \<noteq> CHR ''.'') (map (cell b) (col_cells k))) \<and>
        distinct (filter (\<lambda>ch. ch \<noteq> CHR ''.'') (map (cell b) (box_cells k))))"

text \<open>\<open>b'\<close> is \<open>b\<close> but for cells of \<open>S\<close> that have become empty.\<close>

definition cleared :: "board \<Rightarrow> board \<Rightarrow> (nat \<times> nat) set \<Rightarrow> bool" where
  "cleared b b' S =
     (length b' = length b \<and> (\<forall>r<length b. length (b' ! r) = length (b ! r)) \<and>
      (\<forall>p. cell b' p = cell b p \<or> (p \<in> S \<and> cell b' p = CHR ''.'')))"

subsection \<open>Example configurations\<close>

text \<open>Row 0 holds a \<open>'1'\<close> in column 1 and the masks record it; cell \<open>(0, 0)\<close> is empty.\<close>

definition one_in_row_board :: board where
  "one_in_row_board = ''.1.......'' # replicate 8 ''.........''"

definition one_in_row_solver :: solver where
  "one_in_row_solver =
     \<lparr>rowMask = [1, 0, 0, 0, 0, 0, 0, 0, 0], colMask = [0, 1, 0, 0, 0, 0, 0, 0, 0],
      boxMask = [1, 0, 0, 0, 0, 0, 0, 0, 0], empties = []\<rparr>"

text \<open>A completed grid; the same grid with its last cell empty; that puzzle with a
  second \<open>'3'\<close> written over the \<open>'5'\<close> of cell \<open>(0, 0)\<close>; a board whose cell \<open>(0, 0)\<close>
  can take no digit; and the board without any digit.\<close>

definition solved_board :: board where
  "solved_board =
     [''534678912'', ''672195348'', ''198342567'',
      ''859761423'', ''426853791'', ''713924856'',
      ''961537284'', ''287419635'', ''345286179'']"

definition gap_board :: board where
  "gap_board = set_cell solved_board 8 8 CHR ''.''"

definition clash_board :: board where
  "clash_board = set_cell gap_board 0 0 CHR ''3''"

definition dead_board :: board where
  "dead_board = ''.12345678'' # ''9........'' # replicate 7 ''.........''"

definition blank_board :: board where
  "blank_board = replicate 9 ''.........''"

text \<open>An object whose \<open>empties\<close> names cell \<open>(0, 0)\<close>, although the board holds a \<open>'5'\<close>
  there, and cell \<open>(0, 1)\<close>; every digit but \<open>'1'\<close> is marked as used in row 0.\<close>

definition stale_cell_board :: board where
  "stale_cell_board = ''5........'' # replicate 8 ''.........''"

definition stale_cell_solver :: solver where
  "stale_cell_solver =
     \<lparr>rowMask = [510, 0, 0, 0, 0, 0, 0, 0, 0], colMask = [0, 0, 0, 0, 0, 0, 0, 0, 0],
      boxMask = [0, 0, 0, 0, 0, 0, 0, 0, 0], empties = [(0, 0), (0, 1)]\<rparr>"

subsection \<open>Termination of \<open>dfs\<close>\<close>

text \<open>The loop continues with the object returned by the recursive call, so the
  termination proof needs that a call leaves \<open>empties\<close> as it found it.\<close>

lemma place_empties [simp]: "empties (fst (place st b r c d)) = empties st"
  by (simp add: place_def)
lemma backtrack_empties [simp]: "empties (fst (backtrack st b r c d)) = empties st"
  by (simp add: backtrack_def)

lemma dfs_dom_empties:
  "dfs_dfs_loop_dom (Inl (st, b, idx)) \<Longrightarrow> dfs st b idx = Some (ok, st', b', tr) \<Longrightarrow> empties st' = empties st"
  "dfs_dfs_loop_dom (Inr (st, b, idx, r, c, used, d)) \<Longrightarrow> dfs_loop st b idx r c used d = Some (ok, st', b', tr) \<Longrightarrow> empties st' = empties st"
proof (induction st b idx and st b idx r c used d arbitrary: ok st' b' tr and ok st' b' tr rule: dfs_dfs_loop.pinduct)
  case (1 st board idx)
  note eq = dfs.psimps[OF 1(1)]
  show ?case
  proof (cases "idx = length (empties st)")
    case True
    then show ?thesis using 1(3)[unfolded eq] by simp
  next
    case False
    then have lt: "\<not> length (empties st) < idx" and rc: "\<not> (9 \<le> fst (empties st ! idx) \<or> 9 \<le> snd (empties st ! idx))"
      using 1(3) by (auto simp add: eq Let_def split: if_splits)
    have "dfs_loop st board idx (fst (empties st ! idx)) (snd (empties st ! idx))
           (rowMask st ! fst (empties st ! idx) OR colMask st ! snd (empties st ! idx) OR
             boxMask st ! boxIndex (fst (empties st ! idx)) (snd (empties st ! idx))) 0 = Some (ok, st', b', tr)"
      using 1(3) False lt rc by (simp add: eq Let_def)
    then show ?thesis
      using 1(2)[OF False lt refl refl rc refl] by blast
  qed
next
  case (2 st board idx r c used d)
  note eq = dfs_loop.psimps[OF 2(1)]
  show ?case
  proof (cases "9 \<le> d")
    case True
    then show ?thesis using 2(5) by (simp add: eq)
  next
    case d: False
    show ?thesis
    proof (cases "used AND bit_of d \<noteq> 0")
      case True
      then show ?thesis using 2(2)[OF d True] 2(5) d by (simp add: eq)
    next
      case u: False
      have ib: "in_bounds board r c" using 2(5) d u by (simp add: eq split: if_splits)
      define placed where "placed = place st board r c d"
      have e1: "empties (fst placed) = empties st" by (simp add: placed_def)
      show ?thesis
      proof (cases "dfs (fst placed) (snd placed) (idx + 1)")
        case None
        then show ?thesis using 2(5) d u ib by (simp add: eq placed_def)
      next
        case (Some res)
        obtain ok2 st2 b2 tr2 where res: "res = (ok2, st2, b2, tr2)" by (cases res) auto
        have ib': "\<not> \<not> in_bounds board r c" using ib by simp
        have e2: "empties st2 = empties (fst placed)"
          using 2(3)[OF d u ib' placed_def, of ok2 st2 b2 tr2] Some res by simp
        show ?thesis
        proof (cases ok2)
          case True
          then show ?thesis using 2(5) d u Some res e1 e2 ib by (simp add: eq placed_def)
        next
          case False
          define undone where "undone = backtrack st2 b2 r c d"
          have e3: "empties (fst undone) = empties st2" by (simp add: undone_def)
          have ib2: "in_bounds b2 r c" using 2(5) d u Some res False ib by (simp add: eq placed_def split: if_splits)
          have ib2': "\<not> \<not> in_bounds b2 r c" using ib2 by simp
          have ih: "dfs_loop (fst undone) (snd undone) idx r c used (d + 1) = Some (ok, st', b', tr) \<Longrightarrow> empties st' = empties (fst undone)" for ok st' b' tr
            using 2(4)[OF d u ib' placed_def Some[unfolded res] refl refl refl False ib2' undone_def] by blast
          show ?thesis
          proof (cases "dfs_loop (fst undone) (snd undone) idx r c used (d + 1)")
            case None
            then show ?thesis using 2(5) d u Some res ib ib2 False by (simp add: eq placed_def undone_def)
          next
            case (Some res')
            obtain ok4 st4 b4 tr4 where res': "res' = (ok4, st4, b4, tr4)" by (cases res') auto
            have "st' = st4" using 2(5) d u \<open>dfs (fst placed) (snd placed) (idx + 1) = Some res\<close> res ib ib2 False Some res'
              by (simp add: eq placed_def undone_def)
            then show ?thesis using ih[of ok4 st4 b4 tr4] Some res' e1 e2 e3 by simp
          qed
        qed
      qed
    qed
  qed
qed

termination dfs
proof (relation "measure (\<lambda>x. case x of
          Inl (st, b, idx) \<Rightarrow> 22 * (length (empties st) - idx)
        | Inr (st, b, idx, r, c, used, d) \<Rightarrow> 22 * (length (empties st) - (idx + 1)) + 1 + (9 - d))", goal_cases)
  case 1 show ?case by simp
next
  case 2 then show ?case by simp
next
  case 3 then show ?case by simp
next
  case 4 
  then show ?case by simp
next
  case (5 st b idx r c used d placed res ok rest st2 rest2 b2 tr undone)
  have res: "res = (ok, st2, b2, tr)" using 5(6,7,8) by simp
  have "empties st2 = empties (fst placed)" 
    using dfs_dom_empties(1)[OF 5(12) 5(5)[unfolded res]] .
  then show ?case using 5(1) 5(4) 5(11) by simp
qed

declare dfs.simps [simp del] dfs_loop.simps [simp del]

section \<open>Characters and bits\<close>

lemma of_char_digit_char: "n < 9 \<Longrightarrow> of_char (digit_char n) = 49 + n"
  by (simp add: digit_char_def)

lemma digit_char_inj:
  assumes "n < 9" "m < 9" "digit_char n = digit_char m"
  shows "n = m"
proof -
  have "(of_char (digit_char n) :: nat) = of_char (digit_char m)"
    using assms(3) by simp
  then have "49 + n = 49 + m"
    by (simp only: of_char_digit_char[OF assms(1)] of_char_digit_char[OF assms(2)])
  then show ?thesis by simp
qed

lemma digit_char_not_dot: "n < 9 \<Longrightarrow> digit_char n \<noteq> CHR ''.''"
  using of_char_digit_char[of n] by auto

lemma digit_char_simps:
  "digit_char 0 = CHR ''1''" "digit_char 1 = CHR ''2''" "digit_char 2 = CHR ''3''"
  "digit_char 3 = CHR ''4''" "digit_char 4 = CHR ''5''" "digit_char 5 = CHR ''6''"
  "digit_char 6 = CHR ''7''" "digit_char 7 = CHR ''8''" "digit_char 8 = CHR ''9''"
  by code_simp+

lemma upt9: "[0..<9] = [0, 1, 2, 3, 4, 5, 6, 7, 8]"
  by code_simp

lemma digit_set: "set ''123456789'' = digit_char ` {0..<9}"
proof -
  have "map digit_char [0..<9] = ''123456789''" by code_simp
  then have "set ''123456789'' = set (map digit_char [0..<9])" by simp
  then show ?thesis by (simp only: set_map set_upt)
qed

lemma board_ok_alt:
  "board_ok b \<longleftrightarrow>
     length b = 9 \<and>
     (\<forall>row\<in>set b. length row = 9 \<and>
        (\<forall>ch\<in>set row. ch = CHR ''.'' \<or> ch \<in> digit_char ` {0..<9}))"
proof -
  have "set ''123456789.'' = insert CHR ''.'' (set ''123456789'')" by auto
  then have "ch \<in> set ''123456789.'' \<longleftrightarrow> ch = CHR ''.'' \<or> ch \<in> digit_char ` {0..<9}" for ch
    unfolding digit_set by blast
  then show ?thesis unfolding board_ok_def by simp
qed

lemma and_bit_of: "(w AND bit_of d \<noteq> 0) = bit w d"
  by (simp add: bit_of_def bit_iff_and_push_bit_not_eq_0)

lemma clear_after_set:
  "(x OR y OR z) AND bit_of d = 0 \<Longrightarrow> (x OR bit_of d) AND NOT (bit_of d) = x"
  "(x OR y OR z) AND bit_of d = 0 \<Longrightarrow> (y OR bit_of d) AND NOT (bit_of d) = y"
  "(x OR y OR z) AND bit_of d = 0 \<Longrightarrow> (z OR bit_of d) AND NOT (bit_of d) = z"
  by (auto simp: bit_eq_iff bit_simps bit_of_def)


section \<open>Units as sets of cells\<close>

lemma all_cells_product: "all_cells = List.product [0..<9] [0..<9]"
  by (simp only: all_cells_def product_concat_map)

lemma set_all_cells: "set all_cells = grid"
  by (simp add: all_cells_product grid_def)

lemma distinct_all_cells: "distinct all_cells"
  by (simp add: all_cells_product distinct_product)

lemma concat_map_if_inner:
  "concat (map (\<lambda>c. if P c then [(r, c)] else []) ys) = filter (\<lambda>p. P (snd p)) (map (Pair r) ys)"
  by (induction ys) auto

lemma concat_map_if_outer:
  "concat (map (\<lambda>r. concat (map (\<lambda>c. if P r c then [(r, c)] else []) ys)) xs)
     = filter (\<lambda>p. P (fst p) (snd p)) (List.product xs ys)"
proof (induction xs)
  case Nil
  show ?case by simp
next
  case (Cons x xs)
  have "filter (\<lambda>p. P (fst p) (snd p)) (map (Pair x) ys) = filter (\<lambda>p. P x (snd p)) (map (Pair x) ys)"
    by (rule filter_cong) auto
  then show ?case using Cons by (simp add: concat_map_if_inner)
qed

lemma box_cells_filter: "box_cells k = filter (\<lambda>p. boxIndex (fst p) (snd p) = k) all_cells"
  by (simp only: box_cells_def all_cells_product concat_map_if_outer)

lemma set_row_cells: "set (row_cells k) = {p. fst p = k \<and> snd p < 9}"
  by (auto simp: row_cells_def)

lemma set_col_cells: "set (col_cells k) = {p. snd p = k \<and> fst p < 9}"
  by (auto simp: col_cells_def)

lemma set_box_cells: "set (box_cells k) = {p \<in> grid. boxIndex (fst p) (snd p) = k}"
  by (auto simp: box_cells_filter set_all_cells)

lemma distinct_row_cells: "distinct (row_cells k)"
  by (simp add: row_cells_def distinct_map inj_on_def)

lemma distinct_col_cells: "distinct (col_cells k)"
  by (simp add: col_cells_def distinct_map inj_on_def)

lemma distinct_box_cells: "distinct (box_cells k)"
  by (simp add: box_cells_filter distinct_all_cells)

lemma length_row_cells: "length (row_cells k) = 9" by (simp add: row_cells_def)
lemma length_col_cells: "length (col_cells k) = 9" by (simp add: col_cells_def)
lemma length_box_cells: "k < 9 \<Longrightarrow> length (box_cells k) = 9"
proof -
  have "\<forall>k\<in>set [0..<9]. length (box_cells k) = 9"
    by code_simp
  then show "k < 9 \<Longrightarrow> length (box_cells k) = 9" by simp
qed

lemma grid_iff: "p \<in> grid \<longleftrightarrow> fst p < 9 \<and> snd p < 9"
  by (cases p) (simp add: grid_def)

lemma boxIndex_less: "r < 9 \<Longrightarrow> c < 9 \<Longrightarrow> boxIndex r c < 9"
proof -
  assume "r < 9" "c < 9"
  then have "r div 3 \<le> 2" "c div 3 \<le> 2" by auto
  then show ?thesis unfolding boxIndex_def by linarith
qed

lemma occurrences_pos: "0 < occurrences b cells n \<longleftrightarrow> (\<exists>p\<in>set cells. cell b p = digit_char n)"
  by (auto simp: occurrences_def filter_empty_conv)

lemma occurrences_card:
  "distinct cells \<Longrightarrow> occurrences b cells n = card {p \<in> set cells. cell b p = digit_char n}"
  by (simp add: occurrences_def distinct_length_filter Int_def conj_commute)

lemma occurrences_le1:
  assumes "distinct cells"
  shows "occurrences b cells n \<le> 1 \<longleftrightarrow>
     (\<forall>p\<in>set cells. \<forall>q\<in>set cells. cell b p = digit_char n \<and> cell b q = digit_char n \<longrightarrow> p = q)"
proof -
  let ?S = "{p \<in> set cells. cell b p = digit_char n}"
  have fin: "finite ?S" by simp
  have "card ?S \<le> 1 \<longleftrightarrow> (\<forall>p\<in>?S. \<forall>q\<in>?S. p = q)"
    using fin card_le_Suc0_iff_eq[of ?S] by simp
  then show ?thesis using assms by (auto simp: occurrences_card)
qed

lemma board_ok_cell:
  assumes "board_ok b" "p \<in> grid"
  shows "cell b p = CHR ''.'' \<or> (\<exists>n<9. cell b p = digit_char n)"
proof -
  have r: "fst p < length b" using assms by (simp add: board_ok_def grid_iff)
  then have "b ! fst p \<in> set b" by simp
  then have row: "length (b ! fst p) = 9 \<and> (\<forall>ch\<in>set (b ! fst p). ch = CHR ''.'' \<or> ch \<in> digit_char ` {0..<9})"
    using assms(1) unfolding board_ok_alt by blast
  then have "b ! fst p ! snd p \<in> set (b ! fst p)" using assms(2) by (simp add: grid_iff)
  then have "cell b p = CHR ''.'' \<or> cell b p \<in> digit_char ` {0..<9}"
    using row unfolding cell_def by blast
  then show ?thesis
  proof
    assume "cell b p = CHR ''.''" then show ?thesis by blast
  next
    assume "cell b p \<in> digit_char ` {0..<9}"
    then obtain n where "n \<in> {0..<9}" "cell b p = digit_char n" by (rule imageE)
    then have "n < 9 \<and> cell b p = digit_char n" by simp
    then show ?thesis by blast
  qed
qed

lemma board_ok_in_bounds: "board_ok b \<Longrightarrow> r < 9 \<Longrightarrow> c < 9 \<Longrightarrow> in_bounds b r c"
  by (simp add: board_ok_def in_bounds_def)

lemma peer_sym: "peer p q \<Longrightarrow> peer q p"
  by (auto simp: peer_def)

lemma occurrences_le1D:
  "distinct cells \<Longrightarrow> occurrences b cells n \<le> 1 \<Longrightarrow> p \<in> set cells \<Longrightarrow> q \<in> set cells \<Longrightarrow>
   cell b p = digit_char n \<Longrightarrow> cell b q = digit_char n \<Longrightarrow> p = q"
  using occurrences_le1[of cells b n] by blast

lemma occurrences_le1I:
  "distinct cells \<Longrightarrow>
   (\<And>p q. p \<in> set cells \<Longrightarrow> q \<in> set cells \<Longrightarrow> cell b p = digit_char n \<Longrightarrow> cell b q = digit_char n \<Longrightarrow> p = q)
   \<Longrightarrow> occurrences b cells n \<le> 1"
  using occurrences_le1[of cells b n] by blast

lemma prefix_valid_no_clash:
  assumes "board_ok b" "prefix_valid b"
  shows "no_clash b"
  unfolding no_clash_def
proof (intro ballI impI)
  fix p q assume pq: "p \<in> grid" "q \<in> grid" and h: "p \<noteq> q \<and> peer p q \<and> cell b p \<noteq> CHR ''.''"
  obtain n where n: "n < 9" "cell b p = digit_char n"
    using board_ok_cell[OF assms(1) pq(1)] h by auto
  have p9: "fst p < 9" "snd p < 9" and q9: "fst q < 9" "snd q < 9"
    using pq by (simp_all add: grid_iff)
  show "cell b p \<noteq> cell b q"
  proof
    assume eq: "cell b p = cell b q"
    then have qn: "cell b q = digit_char n" using n by simp
    have occ: "occurrences b (row_cells k) n \<le> 1" "occurrences b (col_cells k) n \<le> 1"
              "occurrences b (box_cells k) n \<le> 1" if "k < 9" for k
      using assms(2) n(1) that unfolding prefix_valid_def by auto
    from h have "peer p q" by simp
    then consider "fst p = fst q" | "snd p = snd q"
      | "boxIndex (fst p) (snd p) = boxIndex (fst q) (snd q)"
      unfolding peer_def by blast
    then have "p = q"
    proof cases
      case 1
      have "p \<in> set (row_cells (fst p))" "q \<in> set (row_cells (fst p))"
        using p9 q9 1 by (simp_all add: set_row_cells)
      then show ?thesis
        using occurrences_le1D[OF distinct_row_cells occ(1)[OF p9(1)] _ _ n(2) qn] by blast
    next
      case 2
      have "p \<in> set (col_cells (snd p))" "q \<in> set (col_cells (snd p))"
        using p9 q9 2 by (simp_all add: set_col_cells)
      then show ?thesis
        using occurrences_le1D[OF distinct_col_cells occ(2)[OF p9(2)] _ _ n(2) qn] by blast
    next
      case 3
      have "p \<in> set (box_cells (boxIndex (fst p) (snd p)))" "q \<in> set (box_cells (boxIndex (fst p) (snd p)))"
        using pq 3 by (simp_all add: set_box_cells)
      moreover have "boxIndex (fst p) (snd p) < 9" using p9 by (simp add: boxIndex_less)
      ultimately show ?thesis
        using occurrences_le1D[OF distinct_box_cells occ(3) _ _ n(2) qn] by blast
    qed
    then show False using h by simp
  qed
qed

lemma no_clash_same_digit:
  assumes "no_clash b" "p \<in> grid" "q \<in> grid" "peer p q"
    "cell b p = digit_char n" "cell b q = digit_char n" "n < 9"
  shows "p = q"
proof (rule ccontr)
  assume "p \<noteq> q"
  moreover have "cell b p \<noteq> CHR ''.''" using assms(5,7) digit_char_not_dot by simp
  ultimately have "cell b p \<noteq> cell b q" using assms(1-4) unfolding no_clash_def by blast
  then show False using assms by simp
qed

lemma no_clash_prefix_valid:
  assumes nc: "no_clash b"
  shows "prefix_valid b"
  unfolding prefix_valid_def
proof (intro ballI conjI)
  fix k n :: nat assume "k \<in> {0..<9}" "n \<in> {0..<9}"
  then have k: "k < 9" and n: "n < 9" by auto
  show "occurrences b (row_cells k) n \<le> 1"
  proof (rule occurrences_le1I[OF distinct_row_cells])
    fix p q assume a: "p \<in> set (row_cells k)" "q \<in> set (row_cells k)" "cell b p = digit_char n" "cell b q = digit_char n"
    then have "p \<in> grid" "q \<in> grid" "peer p q" using k by (simp_all add: set_row_cells grid_iff peer_def)
    then show "p = q" using no_clash_same_digit[OF nc _ _ _ a(3,4) n] by blast
  qed
  show "occurrences b (col_cells k) n \<le> 1"
  proof (rule occurrences_le1I[OF distinct_col_cells])
    fix p q assume a: "p \<in> set (col_cells k)" "q \<in> set (col_cells k)" "cell b p = digit_char n" "cell b q = digit_char n"
    then have "p \<in> grid" "q \<in> grid" "peer p q" using k by (simp_all add: set_col_cells grid_iff peer_def)
    then show "p = q" using no_clash_same_digit[OF nc _ _ _ a(3,4) n] by blast
  qed
  show "occurrences b (box_cells k) n \<le> 1"
  proof (rule occurrences_le1I[OF distinct_box_cells])
    fix p q assume a: "p \<in> set (box_cells k)" "q \<in> set (box_cells k)" "cell b p = digit_char n" "cell b q = digit_char n"
    then have "p \<in> grid" "q \<in> grid" "peer p q" by (simp_all add: set_box_cells peer_def)
    then show "p = q" using no_clash_same_digit[OF nc _ _ _ a(3,4) n] by blast
  qed
qed

lemma card_digit_chars: "card (digit_char ` {0..<9}) \<le> 9"
  using card_image_le[of "{0..<9::nat}" digit_char] by simp

lemma pigeonhole:
  assumes d: "distinct cells" and l: "length cells = 9"
    and filled: "\<And>p. p \<in> set cells \<Longrightarrow> \<exists>n<9. cell b p = digit_char n"
    and inj: "\<And>p q. p \<in> set cells \<Longrightarrow> q \<in> set cells \<Longrightarrow> cell b p = cell b q \<Longrightarrow> p = q"
    and n: "n < 9"
  shows "\<exists>p\<in>set cells. cell b p = digit_char n"
proof -
  have "inj_on (cell b) (set cells)" using inj by (auto simp: inj_on_def)
  then have "card (cell b ` set cells) = 9"
    using d l by (simp add: card_image distinct_card)
  moreover have sub: "cell b ` set cells \<subseteq> digit_char ` {0..<9}"
  proof
    fix x assume "x \<in> cell b ` set cells"
    then obtain p where p: "p \<in> set cells" "x = cell b p" by blast
    obtain m where "m < 9" "cell b p = digit_char m" using filled[OF p(1)] by blast
    then show "x \<in> digit_char ` {0..<9}" using p(2) by simp
  qed
  ultimately have "cell b ` set cells = digit_char ` {0..<9}"
    using card_seteq[OF _ sub] card_digit_chars by simp
  moreover have "digit_char n \<in> digit_char ` {0..<9}" using n by simp
  ultimately have "digit_char n \<in> cell b ` set cells" by simp
  then show ?thesis by (metis imageE)
qed

lemma occurrences_eq1I:
  "0 < occurrences b cells n \<Longrightarrow> occurrences b cells n \<le> 1 \<Longrightarrow> occurrences b cells n = 1"
  by simp

lemma solved_no_clash: 
  assumes "solved b" shows "no_clash b"
proof -
  have "board_ok b" using assms by (simp add: solved_def)
  moreover have "prefix_valid b"
    using assms unfolding solved_def prefix_valid_def by simp
  ultimately show ?thesis by (rule prefix_valid_no_clash)
qed

lemma solved_filled: "solved b \<Longrightarrow> p \<in> grid \<Longrightarrow> \<exists>n<9. cell b p = digit_char n"
  using board_ok_cell[of b p] by (auto simp: solved_def set_all_cells)

lemma solvedI:
  assumes ok: "board_ok b" and fl: "\<And>p. p \<in> grid \<Longrightarrow> cell b p \<noteq> CHR ''.''" and nc: "no_clash b"
  shows "solved b"
proof -
  have dig: "\<exists>n<9. cell b p = digit_char n" if "p \<in> grid" for p
    using board_ok_cell[OF ok that] fl[OF that] by simp
  have pv: "prefix_valid b" using nc by (rule no_clash_prefix_valid)
  have inj: "p = q" if "p \<in> grid" "q \<in> grid" "peer p q" "cell b p = cell b q" for p q
    using nc that fl[OF that(1)] unfolding no_clash_def by blast
  have pos: "0 < occurrences b (row_cells k) n \<and> 0 < occurrences b (col_cells k) n \<and> 0 < occurrences b (box_cells k) n"
    if k: "k < 9" and n: "n < 9" for k n
  proof (intro conjI)
    have "\<exists>p\<in>set (row_cells k). cell b p = digit_char n"
    proof (rule pigeonhole[OF distinct_row_cells length_row_cells _ _ n])
      fix p assume "p \<in> set (row_cells k)" 
      then have "p \<in> grid" using k by (simp add: set_row_cells grid_iff)
      then show "\<exists>n<9. cell b p = digit_char n" by (rule dig)
    next
      fix p q assume a: "p \<in> set (row_cells k)" "q \<in> set (row_cells k)" "cell b p = cell b q"
      then have "p \<in> grid" "q \<in> grid" "peer p q" using k by (simp_all add: set_row_cells grid_iff peer_def)
      then show "p = q" using a(3) by (rule inj)
    qed
    then show "0 < occurrences b (row_cells k) n" by (simp add: occurrences_pos)
    have "\<exists>p\<in>set (col_cells k). cell b p = digit_char n"
    proof (rule pigeonhole[OF distinct_col_cells length_col_cells _ _ n])
      fix p assume "p \<in> set (col_cells k)" 
      then have "p \<in> grid" using k by (simp add: set_col_cells grid_iff)
      then show "\<exists>n<9. cell b p = digit_char n" by (rule dig)
    next
      fix p q assume a: "p \<in> set (col_cells k)" "q \<in> set (col_cells k)" "cell b p = cell b q"
      then have "p \<in> grid" "q \<in> grid" "peer p q" using k by (simp_all add: set_col_cells grid_iff peer_def)
      then show "p = q" using a(3) by (rule inj)
    qed
    then show "0 < occurrences b (col_cells k) n" by (simp add: occurrences_pos)
    have "\<exists>p\<in>set (box_cells k). cell b p = digit_char n"
    proof (rule pigeonhole[OF distinct_box_cells length_box_cells[OF k] _ _ n])
      fix p assume "p \<in> set (box_cells k)" 
      then have "p \<in> grid" by (simp add: set_box_cells)
      then show "\<exists>n<9. cell b p = digit_char n" by (rule dig)
    next
      fix p q assume a: "p \<in> set (box_cells k)" "q \<in> set (box_cells k)" "cell b p = cell b q"
      then have "p \<in> grid" "q \<in> grid" "peer p q" by (simp_all add: set_box_cells peer_def)
      then show "p = q" using a(3) by (rule inj)
    qed
    then show "0 < occurrences b (box_cells k) n" by (simp add: occurrences_pos)
  qed
  have le: "occurrences b (row_cells k) n \<le> 1 \<and> occurrences b (col_cells k) n \<le> 1 \<and> occurrences b (box_cells k) n \<le> 1"
    if k: "k \<in> {0..<9}" and n: "n \<in> {0..<9}" for k n
    using pv that unfolding prefix_valid_def by blast
  have "occurrences b (row_cells k) n = 1 \<and> occurrences b (col_cells k) n = 1 \<and> occurrences b (box_cells k) n = 1"
    if k: "k \<in> {0..<9}" and n: "n \<in> {0..<9}" for k n
  proof -
    have "k < 9" "n < 9" using k n by simp_all
    from pos[OF this] le[OF k n] show ?thesis by linarith
  qed
  then show ?thesis
    unfolding solved_def using ok fl by (simp add: set_all_cells)
qed

lemma length_set_cell [simp]: "length (set_cell b r c x) = length b"
  by (simp add: set_cell_def)

lemma cell_set_cell_same: "in_bounds b r c \<Longrightarrow> cell (set_cell b r c x) (r, c) = x"
  by (simp add: cell_def set_cell_def in_bounds_def)

lemma cell_set_cell_other: "q \<noteq> (r, c) \<Longrightarrow> cell (set_cell b r c x) q = cell b q"
proof (cases q)
  case (Pair r' c')
  assume "q \<noteq> (r, c)"
  then have ne: "r' \<noteq> r \<or> c' \<noteq> c" using Pair by simp
  show ?thesis
  proof (cases "r' = r")
    case False
    then show ?thesis using Pair by (simp add: cell_def set_cell_def)
  next
    case True
    then have c: "c' \<noteq> c" using ne by simp
    show ?thesis
    proof (cases "r < length b")
      case True
      then show ?thesis using Pair \<open>r' = r\<close> c by (simp add: cell_def set_cell_def)
    next
      case False
      then show ?thesis using Pair by (simp add: cell_def set_cell_def list_update_beyond)
    qed
  qed
qed

lemma board_ok_set_cell:
  assumes "board_ok b" "x = CHR ''.'' \<or> x \<in> digit_char ` {0..<9}"
  shows "board_ok (set_cell b r c x)"
proof -
  have len: "length (set_cell b r c x) = 9" using assms(1) by (simp add: board_ok_def)
  have rows: "length row = 9 \<and> (\<forall>ch\<in>set row. ch = CHR ''.'' \<or> ch \<in> digit_char ` {0..<9})"
    if "row \<in> set b" for row using assms(1) that unfolding board_ok_alt by blast
  have "length row = 9 \<and> (\<forall>ch\<in>set row. ch = CHR ''.'' \<or> ch \<in> digit_char ` {0..<9})"
    if "row \<in> set (set_cell b r c x)" for row
  proof -
    have "row \<in> insert ((b ! r)[c := x]) (set b)"
      using that set_update_subset_insert[of b r "(b ! r)[c := x]"] unfolding set_cell_def by blast
    then show ?thesis
    proof
      assume "row \<in> set b" then show ?thesis by (rule rows)
    next
      assume row: "row = (b ! r)[c := x]"
      show ?thesis
      proof (cases "r < length b")
        case True
        then have old: "length (b ! r) = 9 \<and> (\<forall>ch\<in>set (b ! r). ch = CHR ''.'' \<or> ch \<in> digit_char ` {0..<9})"
          using rows[of "b ! r"] by simp
        have "set row \<subseteq> insert x (set (b ! r))" unfolding row by (rule set_update_subset_insert)
        then show ?thesis using old assms(2) row by auto
      next
        case False
        then have "row \<in> set b" using that by (simp add: set_cell_def list_update_beyond)
        then show ?thesis by (rule rows)
      qed
    qed
  qed
  then show ?thesis using len unfolding board_ok_alt by blast
qed

lemma digit_char_ok: "d < 9 \<Longrightarrow> digit_char d \<in> digit_char ` {0..<9}"
  by simp

lemma bit_bit_of: "bit (bit_of d) n \<longleftrightarrow> n = d \<and> d < 32"
  by (auto simp: bit_of_def bit_simps)

lemma bit_word32_less: "bit (w :: 32 word) n \<Longrightarrow> n < 32"
  by (drule bit_imp_le_length) simp

lemma row_occurs: "k < 9 \<Longrightarrow> 0 < occurrences b (row_cells k) n \<longleftrightarrow> (\<exists>p\<in>grid. fst p = k \<and> cell b p = digit_char n)"
  unfolding occurrences_pos set_row_cells by (force simp: grid_iff)

lemma col_occurs: "k < 9 \<Longrightarrow> 0 < occurrences b (col_cells k) n \<longleftrightarrow> (\<exists>p\<in>grid. snd p = k \<and> cell b p = digit_char n)"
  unfolding occurrences_pos set_col_cells by (force simp: grid_iff)

lemma box_occurs: "0 < occurrences b (box_cells k) n \<longleftrightarrow> (\<exists>p\<in>grid. box_of p = k \<and> cell b p = digit_char n)"
  unfolding occurrences_pos set_box_cells box_of_def by force

lemma bounded_bits_iff:
  fixes ms :: "32 word list"
  shows "(\<forall>k\<in>{0..<9}. \<forall>n\<in>{0..<32}. bit (ms ! k) n \<longleftrightarrow> n < 9 \<and> Q k n)
     \<longleftrightarrow> (\<forall>k<9. \<forall>n. bit (ms ! k) n \<longleftrightarrow> n < 9 \<and> Q k n)"
proof
  assume a: "\<forall>k\<in>{0..<9}. \<forall>n\<in>{0..<32}. bit (ms ! k) n \<longleftrightarrow> n < 9 \<and> Q k n"
  show "\<forall>k<9. \<forall>n. bit (ms ! k) n \<longleftrightarrow> n < 9 \<and> Q k n"
  proof (intro allI impI)
    fix k n :: nat assume k: "k < 9"
    show "bit (ms ! k) n \<longleftrightarrow> n < 9 \<and> Q k n"
    proof (cases "n < 32")
      case True
      then have "k \<in> {0..<9}" "n \<in> {0..<32}" using k by simp_all
      then show ?thesis using a by blast
    next
      case False
      then have "\<not> bit (ms ! k) n" using bit_word32_less by blast
      then show ?thesis using False by simp
    qed
  qed
next
  assume a: "\<forall>k<9. \<forall>n. bit (ms ! k) n \<longleftrightarrow> n < 9 \<and> Q k n"
  show "\<forall>k\<in>{0..<9}. \<forall>n\<in>{0..<32}. bit (ms ! k) n \<longleftrightarrow> n < 9 \<and> Q k n"
  proof (intro ballI)
    fix k n :: nat assume "k \<in> {0..<9}"
    then have "k < 9" by simp
    then show "bit (ms ! k) n \<longleftrightarrow> n < 9 \<and> Q k n" using a by blast
  qed
qed

lemma mask_consistent_iff:
  "mask_consistent st b \<longleftrightarrow>
     unit_sem (rowMask st) fst b \<and> unit_sem (colMask st) snd b \<and> unit_sem (boxMask st) box_of b"
proof -
  have "mask_consistent st b \<longleftrightarrow>
     (\<forall>k\<in>{0..<9}. \<forall>n\<in>{0..<32}. bit (rowMask st ! k) n \<longleftrightarrow> n < 9 \<and> 0 < occurrences b (row_cells k) n) \<and>
     (\<forall>k\<in>{0..<9}. \<forall>n\<in>{0..<32}. bit (colMask st ! k) n \<longleftrightarrow> n < 9 \<and> 0 < occurrences b (col_cells k) n) \<and>
     (\<forall>k\<in>{0..<9}. \<forall>n\<in>{0..<32}. bit (boxMask st ! k) n \<longleftrightarrow> n < 9 \<and> 0 < occurrences b (box_cells k) n)"
    unfolding mask_consistent_def by blast
  also have "\<dots> \<longleftrightarrow>
     (\<forall>k<9. \<forall>n. bit (rowMask st ! k) n \<longleftrightarrow> n < 9 \<and> 0 < occurrences b (row_cells k) n) \<and>
     (\<forall>k<9. \<forall>n. bit (colMask st ! k) n \<longleftrightarrow> n < 9 \<and> 0 < occurrences b (col_cells k) n) \<and>
     (\<forall>k<9. \<forall>n. bit (boxMask st ! k) n \<longleftrightarrow> n < 9 \<and> 0 < occurrences b (box_cells k) n)"
    by (simp only: bounded_bits_iff)
  also have "\<dots> \<longleftrightarrow> unit_sem (rowMask st) fst b \<and> unit_sem (colMask st) snd b \<and> unit_sem (boxMask st) box_of b"
    unfolding unit_sem_def by (simp add: row_occurs col_occurs box_occurs cong: conj_cong)
  finally show ?thesis .
qed

lemma unit_sem_place:
  assumes sem: "unit_sem ms u b" and len: "length ms = 9" and u9: "u (r, c) < 9"
    and ib: "in_bounds b r c" and rc: "(r, c) \<in> grid" and e: "cell b (r, c) = CHR ''.''" and d: "d < 9"
  shows "unit_sem (ms[u (r, c) := ms ! u (r, c) OR bit_of d]) u (set_cell b r c (digit_char d))"
  unfolding unit_sem_def
proof (intro allI impI)
  fix k n :: nat assume k: "k < 9"
  let ?b1 = "set_cell b r c (digit_char d)"
  have old: "bit (ms ! k) n \<longleftrightarrow> n < 9 \<and> (\<exists>p\<in>grid. u p = k \<and> cell b p = digit_char n)"
    using sem k unfolding unit_sem_def by blast
  have new_cell: "(\<exists>p\<in>grid. u p = k \<and> cell ?b1 p = digit_char n)
        \<longleftrightarrow> (u (r, c) = k \<and> digit_char d = digit_char n) \<or> (\<exists>p\<in>grid. u p = k \<and> cell b p = digit_char n)"
    if n: "n < 9"
  proof
    assume "\<exists>p\<in>grid. u p = k \<and> cell ?b1 p = digit_char n"
    then obtain p where p: "p \<in> grid" "u p = k" "cell ?b1 p = digit_char n" by blast
    show "(u (r, c) = k \<and> digit_char d = digit_char n) \<or> (\<exists>p\<in>grid. u p = k \<and> cell b p = digit_char n)"
    proof (cases "p = (r, c)")
      case True
      then show ?thesis using p cell_set_cell_same[OF ib, of "digit_char d"] by simp
    next
      case False
      then show ?thesis using p cell_set_cell_other[OF False, of b "digit_char d"] by auto
    qed
  next
    assume "(u (r, c) = k \<and> digit_char d = digit_char n) \<or> (\<exists>p\<in>grid. u p = k \<and> cell b p = digit_char n)"
    then show "\<exists>p\<in>grid. u p = k \<and> cell ?b1 p = digit_char n"
    proof
      assume "u (r, c) = k \<and> digit_char d = digit_char n"
      then show ?thesis using rc cell_set_cell_same[OF ib, of "digit_char d"] by auto
    next
      assume "\<exists>p\<in>grid. u p = k \<and> cell b p = digit_char n"
      then obtain p where p: "p \<in> grid" "u p = k" "cell b p = digit_char n" by blast
      then have "p \<noteq> (r, c)" using e digit_char_not_dot[OF n] by auto
      then show ?thesis using p cell_set_cell_other[of p r c b "digit_char d"] by auto
    qed
  qed
  have dn: "digit_char d = digit_char n \<longleftrightarrow> d = n" if "n < 9" using digit_char_inj[OF d that] by auto
  show "bit (ms[u (r, c) := ms ! u (r, c) OR bit_of d] ! k) n
         \<longleftrightarrow> n < 9 \<and> (\<exists>p\<in>grid. u p = k \<and> cell ?b1 p = digit_char n)"
  proof (cases "n < 9")
    case False
    then show ?thesis using old d len u9 by (cases "k = u (r, c)") (auto simp: bit_simps bit_bit_of)
  next
    case True
    show ?thesis
      unfolding new_cell[OF True] dn[OF True]
      using old d len u9 True by (cases "k = u (r, c)") (auto simp: bit_simps bit_bit_of)
  qed
qed

lemma distinct_filter_mapD:
  assumes "distinct (filter P (map f xs))" "x \<in> set xs" "y \<in> set xs" "x \<noteq> y" "P (f x)"
  shows "f x \<noteq> f y"
proof
  assume eq: "f x = f y"
  have "distinct (map f (filter (P \<circ> f) xs))" using assms(1) by (simp add: filter_map)
  then have "inj_on f (set (filter (P \<circ> f) xs))" by (simp add: distinct_map)
  moreover have "x \<in> set (filter (P \<circ> f) xs)" "y \<in> set (filter (P \<circ> f) xs)"
    using assms(2,3,5) eq by simp_all
  ultimately have "x = y" using eq by (simp add: inj_on_def)
  then show False using assms(4) by simp
qed

lemma units_distinct_no_clash:
  assumes ud: "units_distinct b"
  shows "no_clash b"
  unfolding no_clash_def
proof (intro ballI impI)
  fix p q assume pq: "p \<in> grid" "q \<in> grid" and h: "p \<noteq> q \<and> peer p q \<and> cell b p \<noteq> CHR ''.''"
  have p9: "fst p < 9" "snd p < 9" and q9: "fst q < 9" "snd q < 9"
    using pq by (simp_all add: grid_iff)
  have d: "distinct (filter (\<lambda>ch. ch \<noteq> CHR ''.'') (map (cell b) (row_cells k)))"
          "distinct (filter (\<lambda>ch. ch \<noteq> CHR ''.'') (map (cell b) (col_cells k)))"
          "distinct (filter (\<lambda>ch. ch \<noteq> CHR ''.'') (map (cell b) (box_cells k)))" if "k < 9" for k
    using ud that unfolding units_distinct_def by simp_all
  from h have ne: "p \<noteq> q" and f: "cell b p \<noteq> CHR ''.''" by simp_all
  from h have "peer p q" by simp
  then consider "fst p = fst q" | "snd p = snd q"
    | "boxIndex (fst p) (snd p) = boxIndex (fst q) (snd q)"
    unfolding peer_def by blast
  then show "cell b p \<noteq> cell b q"
  proof cases
    case 1
    have "p \<in> set (row_cells (fst p))" "q \<in> set (row_cells (fst p))"
      using p9 q9 1 by (simp_all add: set_row_cells)
    then show ?thesis using distinct_filter_mapD[OF d(1)[OF p9(1)] _ _ ne f] by blast
  next
    case 2
    have "p \<in> set (col_cells (snd p))" "q \<in> set (col_cells (snd p))"
      using p9 q9 2 by (simp_all add: set_col_cells)
    then show ?thesis using distinct_filter_mapD[OF d(2)[OF p9(2)] _ _ ne f] by blast
  next
    case 3
    have "p \<in> set (box_cells (boxIndex (fst p) (snd p)))" "q \<in> set (box_cells (boxIndex (fst p) (snd p)))"
      using pq 3 by (simp_all add: set_box_cells)
    then show ?thesis
      using distinct_filter_mapD[OF d(3)[OF boxIndex_less[OF p9]] _ _ ne f] by blast
  qed
qed

section \<open>Placing and removing a digit\<close>

lemma mask_restore:
  assumes "xs ! i AND bit_of d = 0"
  shows "xs[i := xs[i := xs ! i OR bit_of d] ! i AND NOT (bit_of d)] = xs"
proof (cases "i < length xs")
  case True
  have "(xs ! i OR bit_of d) AND NOT (bit_of d) = xs ! i"
    using assms by (auto simp: bit_eq_iff bit_simps bit_of_def)
  then show ?thesis using True by simp
next
  case False
  then show ?thesis by (simp add: list_update_beyond)
qed

lemma or3_and_zero:
  "(x OR y OR z) AND w = 0 \<Longrightarrow> x AND w = 0 \<and> y AND w = 0 \<and> z AND (w::32 word) = 0"
  by (auto simp: bit_eq_iff bit_simps)

lemma set_cell_back: "in_bounds b r c \<Longrightarrow> set_cell (set_cell b r c x) r c (b ! r ! c) = b"
  by (simp add: set_cell_def in_bounds_def)

lemma backtrack_place:
  assumes "in_bounds b r c" and "b ! r ! c = CHR ''.''"
    and "(rowMask st ! r OR colMask st ! c OR boxMask st ! boxIndex r c) AND bit_of d = 0"
  shows "backtrack (fst (place st b r c d)) (snd (place st b r c d)) r c d = (st, b)"
proof -
  note z = or3_and_zero[OF assms(3)]
  have "set_cell (set_cell b r c (digit_char d)) r c CHR ''.'' = b"
    using set_cell_back[OF assms(1), of "digit_char d"] assms(2) by simp
  then show ?thesis
    using z by (simp add: place_def backtrack_def mask_restore)
qed

text \<open>
  Claim C4, as amended. For every configuration, every empty cell \<open>(r, c)\<close> of the board
  and every digit \<open>d\<close> whose bit is set in none of \<open>rowMask[r]\<close>, \<open>colMask[c]\<close> and
  \<open>boxMask[box(r, c)]\<close> (the test \<open>used & bit\<close> that \<open>dfs\<close> makes before it places a
  digit), the removal step right after the placement step gives back the board and the
  three mask arrays exactly as they were before the placement.
\<close>

theorem place_backtrack_restores:
  assumes "in_bounds b r c" and "b ! r ! c = CHR ''.''"
    and "(rowMask st ! r OR colMask st ! c OR boxMask st ! boxIndex r c) AND bit_of d = 0"
  shows "backtrack (fst (place st b r c d)) (snd (place st b r c d)) r c d = (st, b)"
  using assms by (rule backtrack_place)

text \<open>Claim C4, an instance of the amended statement: digit \<open>'2'\<close> (bit 1) into the
  empty cell \<open>(0, 0)\<close> of a row that holds only a \<open>'1'\<close>.\<close>

theorem place_backtrack_restores_witness:
  "backtrack (fst (place one_in_row_solver one_in_row_board 0 0 1))
             (snd (place one_in_row_solver one_in_row_board 0 0 1)) 0 0 1
     = (one_in_row_solver, one_in_row_board)"
  by (rule place_backtrack_restores)
     (simp_all add: in_bounds_def one_in_row_board_def one_in_row_solver_def boxIndex_def bit_of_def)


text \<open>
  Claim C4 as stated, for every digit, fails: row 0 already holds a \<open>'1'\<close>, so bit 0 of
  \<open>rowMask[0]\<close> is set before the placement of \<open>'1'\<close> into the empty cell \<open>(0, 0)\<close>;
  the removal clears that bit, and the masks are not the ones before the placement.
\<close>

theorem place_backtrack_counterexample:
  "in_bounds one_in_row_board 0 0 \<and> one_in_row_board ! 0 ! 0 = CHR ''.'' \<and>
   backtrack (fst (place one_in_row_solver one_in_row_board 0 0 0))
             (snd (place one_in_row_solver one_in_row_board 0 0 0)) 0 0 0
     \<noteq> (one_in_row_solver, one_in_row_board)"
  by (simp add: in_bounds_def one_in_row_board_def one_in_row_solver_def place_def backtrack_def
        boxIndex_def bit_of_def set_cell_def)

lemma extends_refl: "extends b b"
  by (simp add: extends_def)

lemma extends_trans: "extends a b \<Longrightarrow> extends b c \<Longrightarrow> extends a c"
  unfolding extends_def by metis

lemma extends_set_cell: "cell b (r, c) = CHR ''.'' \<Longrightarrow> extends b (set_cell b r c x)"
  unfolding extends_def using cell_set_cell_other[of _ r c b x] by metis

lemma peer_split: "(\<exists>q\<in>grid. peer (r, c) q \<and> X q) \<longleftrightarrow>
   (\<exists>q\<in>grid. fst q = r \<and> X q) \<or> (\<exists>q\<in>grid. snd q = c \<and> X q) \<or> (\<exists>q\<in>grid. box_of q = boxIndex r c \<and> X q)"
proof -
  have "peer (r, c) q \<longleftrightarrow> fst q = r \<or> snd q = c \<or> box_of q = boxIndex r c" for q
    unfolding peer_def box_of_def fst_conv snd_conv by (simp only: eq_commute)
  then show ?thesis
    by (simp only: conj_disj_distribR bex_disj_distrib)
qed

lemma used_bit:
  assumes mc: "mask_consistent st b" and rc: "(r, c) \<in> grid"
  shows "bit (rowMask st ! r OR colMask st ! c OR boxMask st ! boxIndex r c) n
           \<longleftrightarrow> n < 9 \<and> (\<exists>q\<in>grid. peer (r, c) q \<and> cell b q = digit_char n)"
proof -
  have r: "r < 9" and c: "c < 9" using rc by (simp_all add: grid_iff)
  have bx: "boxIndex r c < 9" using r c by (rule boxIndex_less)
  have sem: "unit_sem (rowMask st) fst b" "unit_sem (colMask st) snd b" "unit_sem (boxMask st) box_of b"
    using mc by (simp_all add: mask_consistent_iff)
  have 1: "bit (rowMask st ! r) n \<longleftrightarrow> n < 9 \<and> (\<exists>q\<in>grid. fst q = r \<and> cell b q = digit_char n)"
    using sem(1) r unfolding unit_sem_def by blast
  have 2: "bit (colMask st ! c) n \<longleftrightarrow> n < 9 \<and> (\<exists>q\<in>grid. snd q = c \<and> cell b q = digit_char n)"
    using sem(2) c unfolding unit_sem_def by blast
  have 3: "bit (boxMask st ! boxIndex r c) n \<longleftrightarrow> n < 9 \<and> (\<exists>q\<in>grid. box_of q = boxIndex r c \<and> cell b q = digit_char n)"
    using sem(3) bx unfolding unit_sem_def by blast
  show ?thesis
    unfolding bit_or_iff 1 2 3 peer_split by blast
qed

lemma no_clash_set_cell:
  assumes nc: "no_clash b" and ib: "in_bounds b r c" and rc: "(r, c) \<in> grid"
    and free: "\<not> (\<exists>q\<in>grid. peer (r, c) q \<and> cell b q = digit_char d)"
  shows "no_clash (set_cell b r c (digit_char d))"
  unfolding no_clash_def
proof (intro ballI impI)
  let ?b1 = "set_cell b r c (digit_char d)"
  fix p q assume pq: "p \<in> grid" "q \<in> grid" and h: "p \<noteq> q \<and> peer p q \<and> cell ?b1 p \<noteq> CHR ''.''"
  show "cell ?b1 p \<noteq> cell ?b1 q"
  proof (cases "p = (r, c)")
    case True
    then have q: "q \<noteq> (r, c)" using h by blast
    have "cell b q \<noteq> digit_char d" using free pq(2) h True by blast
    then show ?thesis
      using True cell_set_cell_same[OF ib, of "digit_char d"] cell_set_cell_other[OF q, of b "digit_char d"]
      by simp
  next
    case False
    note p = cell_set_cell_other[OF False, of b "digit_char d"]
    show ?thesis
    proof (cases "q = (r, c)")
      case True
      have "peer (r, c) p" using h True peer_sym by blast
      then have "cell b p \<noteq> digit_char d" using free pq(1) by blast
      then show ?thesis using True p cell_set_cell_same[OF ib, of "digit_char d"] by simp
    next
      case qf: False
      have "cell b p \<noteq> cell b q" using nc pq h p unfolding no_clash_def by auto
      then show ?thesis using p cell_set_cell_other[OF qf, of b "digit_char d"] by simp
    qed
  qed
qed

lemma solution_avoids_used:
  assumes sol: "is_solution b s" and rc: "(r, c) \<in> grid" and e: "cell b (r, c) = CHR ''.''"
    and q: "q \<in> grid" "peer (r, c) q" "cell b q = digit_char d" and d: "d < 9"
  shows "cell s (r, c) \<noteq> digit_char d"
proof
  assume eq: "cell s (r, c) = digit_char d"
  have nc: "no_clash s" using sol by (simp add: is_solution_def solved_no_clash)
  have bq: "cell b q \<noteq> CHR ''.''" using q(3) digit_char_not_dot[OF d] by simp
  then have sq: "cell s q = digit_char d"
    using sol q(1,3) unfolding is_solution_def extends_def set_all_cells by auto
  have "q \<noteq> (r, c)" using bq e by auto
  then show False
    using no_clash_same_digit[OF nc q(1) rc peer_sym[OF q(2)] sq eq d] by simp
qed

lemma solution_set_cell:
  assumes sol: "is_solution b s" and ib: "in_bounds b r c" and eq: "cell s (r, c) = x"
  shows "is_solution (set_cell b r c x) s"
proof -
  have "cell s p = cell (set_cell b r c x) p" if "p \<in> grid" "cell (set_cell b r c x) p \<noteq> CHR ''.''" for p
  proof (cases "p = (r, c)")
    case True
    then show ?thesis using eq cell_set_cell_same[OF ib, of x] by simp
  next
    case False
    then show ?thesis
      using that sol cell_set_cell_other[OF False, of b x]
      unfolding is_solution_def extends_def set_all_cells by auto
  qed
  then show ?thesis using sol unfolding is_solution_def extends_def set_all_cells by blast
qed

lemma pending_step:
  assumes p: "pending_ok st b idx" and lt: "idx < length (empties st)" and rc: "empties st ! idx = (r, c)"
    and ib: "in_bounds b r c" and x: "x \<noteq> CHR ''.''" and e: "empties st1 = empties st"
  shows "pending_ok st1 (set_cell b r c x) (Suc idx)"
proof -
  have dist: "distinct (empties st)" and sub: "set (empties st) \<subseteq> grid"
    and emp: "\<And>p. p \<in> grid \<Longrightarrow> cell b p = CHR ''.'' \<longleftrightarrow> p \<in> set (drop idx (empties st))"
    using p unfolding pending_ok_def by auto
  have dr: "drop idx (empties st) = (r, c) # drop (Suc idx) (empties st)"
    using Cons_nth_drop_Suc[OF lt] rc by simp
  have "distinct (drop idx (empties st))" using dist by simp
  then have notin: "(r, c) \<notin> set (drop (Suc idx) (empties st))" unfolding dr by simp
  have "cell (set_cell b r c x) p = CHR ''.'' \<longleftrightarrow> p \<in> set (drop (Suc idx) (empties st))" if "p \<in> grid" for p
  proof (cases "p = (r, c)")
    case True
    then show ?thesis using notin x cell_set_cell_same[OF ib, of x] by simp
  next
    case False
    then show ?thesis using emp[OF that] cell_set_cell_other[OF False, of b x] unfolding dr by simp
  qed
  then show ?thesis using dist sub lt e unfolding pending_ok_def by simp
qed

lemma pending_cell:
  assumes p: "pending_ok st b idx" and lt: "idx < length (empties st)"
  shows "empties st ! idx \<in> grid" "cell b (empties st ! idx) = CHR ''.''"
proof -
  have sub: "set (empties st) \<subseteq> grid"
    and emp: "\<And>p. p \<in> grid \<Longrightarrow> cell b p = CHR ''.'' \<longleftrightarrow> p \<in> set (drop idx (empties st))"
    using p unfolding pending_ok_def by auto
  show g: "empties st ! idx \<in> grid" using sub lt by auto
  have "empties st ! idx \<in> set (drop idx (empties st))"
    using Cons_nth_drop_Suc[OF lt] by (metis list.set_intros(1))
  then show "cell b (empties st ! idx) = CHR ''.''" using emp[OF g] by simp
qed

lemma place_fst_snd:
  "snd (place st b r c d) = set_cell b r c (digit_char d)"
  "rowMask (fst (place st b r c d)) = (rowMask st)[r := rowMask st ! r OR bit_of d]"
  "colMask (fst (place st b r c d)) = (colMask st)[c := colMask st ! c OR bit_of d]"
  "boxMask (fst (place st b r c d)) = (boxMask st)[boxIndex r c := boxMask st ! boxIndex r c OR bit_of d]"
  by (simp_all add: place_def)

lemma search_inv_place:
  assumes i: "search_inv st b idx" and lt: "idx < length (empties st)" and rc: "empties st ! idx = (r, c)"
    and d: "d < 9"
  shows "search_inv (fst (place st b r c d)) (snd (place st b r c d)) (Suc idx)"
proof -
  have so: "solver_ok st" and bo: "board_ok b" and mc: "mask_consistent st b" and pe: "pending_ok st b idx"
    using i by (simp_all add: search_inv_def)
  have g: "(r, c) \<in> grid" and e: "cell b (r, c) = CHR ''.''"
    using pending_cell[OF pe lt] rc by simp_all
  have r: "r < 9" and c: "c < 9" using g by (simp_all add: grid_iff)
  have ib: "in_bounds b r c" using bo r c by (rule board_ok_in_bounds)
  have len: "length (rowMask st) = 9" "length (colMask st) = 9" "length (boxMask st) = 9"
    using so by (simp_all add: solver_ok_def)
  have sem: "unit_sem (rowMask st) fst b" "unit_sem (colMask st) snd b" "unit_sem (boxMask st) box_of b"
    using mc by (simp_all add: mask_consistent_iff)
  have "solver_ok (fst (place st b r c d))"
    using len by (simp add: solver_ok_def place_fst_snd)
  moreover have "board_ok (snd (place st b r c d))"
    unfolding place_fst_snd by (rule board_ok_set_cell[OF bo]) (simp add: d)
  moreover have "mask_consistent (fst (place st b r c d)) (snd (place st b r c d))"
    unfolding mask_consistent_iff place_fst_snd
    using unit_sem_place[OF sem(1) len(1) _ ib g e d] unit_sem_place[OF sem(2) len(2) _ ib g e d]
      unit_sem_place[OF sem(3) len(3) _ ib g e d] r c boxIndex_less[OF r c]
    by (simp add: box_of_def)
  moreover have "pending_ok (fst (place st b r c d)) (snd (place st b r c d)) (Suc idx)"
    unfolding place_fst_snd
    by (rule pending_step[OF pe lt rc ib digit_char_not_dot[OF d]]) simp
  ultimately show ?thesis by (simp add: search_inv_def)
qed

lemma dfs_done: "dfs st b (length (empties st)) = Some (True, st, b, [])"
  by (simp add: dfs.simps)

lemma dfs_step:
  assumes "idx < length (empties st)" "empties st ! idx = (r, c)" "r < 9" "c < 9"
  shows "dfs st b idx
           = dfs_loop st b idx r c (rowMask st ! r OR colMask st ! c OR boxMask st ! boxIndex r c) 0"
  using assms by (simp add: dfs.simps)

lemma dfs_loop_done: "9 \<le> d \<Longrightarrow> dfs_loop st b idx r c used d = Some (False, st, b, [])"
  by (simp add: dfs_loop.simps)

lemma dfs_loop_skip:
  "d < 9 \<Longrightarrow> used AND bit_of d \<noteq> 0 \<Longrightarrow>
   dfs_loop st b idx r c used d = dfs_loop st b idx r c used (d + 1)"
  by (subst dfs_loop.simps) simp

lemma dfs_loop_success:
  assumes "d < 9" "used AND bit_of d = 0" "in_bounds b r c"
    and "dfs (fst (place st b r c d)) (snd (place st b r c d)) (idx + 1) = Some (True, st2, b2, tr)"
  shows "dfs_loop st b idx r c used d = Some (True, st2, b2, place st b r c d # tr)"
  using assms by (subst dfs_loop.simps) simp

lemma dfs_loop_retry:
  assumes "d < 9" "used AND bit_of d = 0" "in_bounds b r c"
    and "dfs (fst (place st b r c d)) (snd (place st b r c d)) (idx + 1) = Some (False, st2, b2, tr)"
    and "in_bounds b2 r c"
  shows "dfs_loop st b idx r c used d =
     (case dfs_loop (fst (backtrack st2 b2 r c d)) (snd (backtrack st2 b2 r c d)) idx r c used (d + 1) of
        None \<Rightarrow> None
      | Some (ok', st4, b4, tr') \<Rightarrow>
          Some (ok', st4, b4, place st b r c d # tr @ backtrack st2 b2 r c d # tr'))"
  using assms by (subst dfs_loop.simps) (simp add: Let_def)

lemma run_ok_True:
  "run_ok st b ex (True, st', b', tr) \<longleftrightarrow>
     empties st' = empties st \<and> (\<forall>cfg\<in>set tr. config_ok st b cfg) \<and>
     search_inv st' b' (length (empties st)) \<and> extends b b' \<and> (no_clash b \<longrightarrow> no_clash b')"
  by (simp add: run_ok_def)

lemma run_ok_False:
  "run_ok st b ex (False, st', b', tr) \<longleftrightarrow>
     empties st' = empties st \<and> (\<forall>cfg\<in>set tr. config_ok st b cfg) \<and>
     st' = st \<and> b' = b \<and> (\<forall>s. is_solution b s \<longrightarrow> ex s)"
  by (simp add: run_ok_def)

lemma run_ok_done_true:
  "search_inv st b (length (empties st)) \<Longrightarrow> run_ok st b ex (True, st, b, [])"
  by (simp add: run_ok_True extends_refl)

lemma run_ok_done_false:
  "(\<And>s. is_solution b s \<Longrightarrow> ex s) \<Longrightarrow> run_ok st b ex (False, st, b, [])"
  by (simp add: run_ok_False)

lemma run_ok_weaken:
  assumes "run_ok st b ex res" and "\<And>s. is_solution b s \<Longrightarrow> ex s \<Longrightarrow> ex' s"
  shows "run_ok st b ex' res"
proof -
  obtain ok st' b' tr where res: "res = (ok, st', b', tr)" by (cases res) auto
  show ?thesis
  proof (cases ok)
    case True
    then show ?thesis using assms(1) unfolding res by (simp add: run_ok_True)
  next
    case False
    then show ?thesis using assms unfolding res by (simp add: run_ok_False)
  qed
qed

lemma config_ok_trans:
  "config_ok st1 b1 cfg \<Longrightarrow> extends b b1 \<Longrightarrow> empties st1 = empties st \<Longrightarrow> config_ok st b cfg"
  unfolding config_ok_def using extends_trans by auto

lemma config_ok_inv: "search_inv st b idx \<Longrightarrow> config_ok st b (st, b)"
  by (simp add: config_ok_def search_inv_def extends_refl)

lemma config_ok_placed:
  "search_inv st1 b1 idx1 \<Longrightarrow> extends b b1 \<Longrightarrow> empties st1 = empties st \<Longrightarrow> config_ok st b (st1, b1)"
  by (simp add: config_ok_def search_inv_def)

lemma dfs_run_ok:
  "search_inv st b idx \<Longrightarrow> \<exists>res. dfs st b idx = Some res \<and> run_ok st b (\<lambda>s. False) res"
  "search_inv st b idx \<Longrightarrow> idx < length (empties st) \<Longrightarrow> empties st ! idx = (r, c) \<Longrightarrow>
   used = rowMask st ! r OR colMask st ! c OR boxMask st ! boxIndex r c \<Longrightarrow>
   \<exists>res. dfs_loop st b idx r c used d = Some res \<and>
         run_ok st b (\<lambda>s. \<forall>n. d \<le> n \<and> n < 9 \<longrightarrow> cell s (r, c) \<noteq> digit_char n) res"
proof (induction st b idx and st b idx r c used d rule: dfs_dfs_loop.induct)
  case (1 st b idx)
  note i = \<open>search_inv st b idx\<close>
  have pe: "pending_ok st b idx" using i by (simp add: search_inv_def)
  then have le: "idx \<le> length (empties st)" by (simp add: pending_ok_def)
  show ?case
  proof (cases "idx = length (empties st)")
    case True
    then show ?thesis using i dfs_done[of st b] run_ok_done_true[of st b] by simp
  next
    case False
    then have lt: "idx < length (empties st)" using le by simp
    obtain r c where rc: "empties st ! idx = (r, c)" by (cases "empties st ! idx") auto
    have g: "(r, c) \<in> grid" and e: "cell b (r, c) = CHR ''.''"
      using pending_cell[OF pe lt] rc by simp_all
    then have r9: "r < 9" "c < 9" by (simp_all add: grid_iff)
    let ?used = "rowMask st ! r OR colMask st ! c OR boxMask st ! boxIndex r c"
    have "\<exists>res. dfs_loop st b idx r c ?used 0 = Some res \<and>
         run_ok st b (\<lambda>s. \<forall>n. 0 \<le> n \<and> n < 9 \<longrightarrow> cell s (r, c) \<noteq> digit_char n) res"
    proof (rule "1.IH"[OF False _ _ _ _ refl i lt rc refl])
      show "\<not> length (empties st) < idx" using lt by simp
      show "r = fst (empties st ! idx)" "c = snd (empties st ! idx)" using rc by simp_all
      show "\<not> (9 \<le> r \<or> 9 \<le> c)" using r9 by simp
    qed
    then obtain res where res: "dfs_loop st b idx r c ?used 0 = Some res"
      and ok: "run_ok st b (\<lambda>s. \<forall>n. 0 \<le> n \<and> n < 9 \<longrightarrow> cell s (r, c) \<noteq> digit_char n) res" by blast
    have "run_ok st b (\<lambda>s. False) res"
    proof (rule run_ok_weaken[OF ok])
      fix s assume s: "is_solution b s" and n: "\<forall>n. 0 \<le> n \<and> n < 9 \<longrightarrow> cell s (r, c) \<noteq> digit_char n"
      have "\<exists>n<9. cell s (r, c) = digit_char n"
        using s g by (simp add: is_solution_def solved_filled)
      then show False using n by auto
    qed
    then show ?thesis using res dfs_step[OF lt rc r9, of b] by simp
  qed
next
  case (2 st b idx r c used d)
  note i = \<open>search_inv st b idx\<close> and lt = \<open>idx < length (empties st)\<close>
    and rc = \<open>empties st ! idx = (r, c)\<close> and used = \<open>used = rowMask st ! r OR colMask st ! c OR boxMask st ! boxIndex r c\<close>
  let ?ex = "\<lambda>d s. \<forall>n. d \<le> n \<and> n < 9 \<longrightarrow> cell s (r, c) \<noteq> digit_char n"
  have so: "solver_ok st" and bo: "board_ok b" and mc: "mask_consistent st b" and pe: "pending_ok st b idx"
    using i by (simp_all add: search_inv_def)
  have g: "(r, c) \<in> grid" and e: "cell b (r, c) = CHR ''.''"
    using pending_cell[OF pe lt] rc by simp_all
  then have r9: "r < 9" "c < 9" by (simp_all add: grid_iff)
  have ib: "in_bounds b r c" using bo r9 by (rule board_ok_in_bounds)
  show ?case
  proof (cases "9 \<le> d")
    case True
    have "run_ok st b (?ex d) (False, st, b, [])"
      by (rule run_ok_done_false) (use True in auto)
    then show ?thesis using dfs_loop_done[OF True, of st b idx r c used] by simp
  next
    case False
    then have d: "d < 9" by simp
    have ubit: "used AND bit_of d \<noteq> 0 \<longleftrightarrow> (\<exists>q\<in>grid. peer (r, c) q \<and> cell b q = digit_char d)"
      unfolding and_bit_of used used_bit[OF mc g] using d by simp
    show ?thesis
    proof (cases "used AND bit_of d \<noteq> 0")
      case True
      obtain res where res: "dfs_loop st b idx r c used (d + 1) = Some res"
        and ok: "run_ok st b (?ex (d + 1)) res"
        using "2.IH"(1)[OF False True i lt rc used] by blast
      obtain q where q: "q \<in> grid" "peer (r, c) q" "cell b q = digit_char d"
        using True ubit by blast
      have "run_ok st b (?ex d) res"
      proof (rule run_ok_weaken[OF ok])
        fix s assume s: "is_solution b s" and n: "?ex (d + 1) s"
        have "cell s (r, c) \<noteq> digit_char d"
          using solution_avoids_used[OF s g e q d] .
        then show "?ex d s" using n by (metis Suc_eq_plus1 Suc_leI le_neq_implies_less)
      qed
      then show ?thesis using res dfs_loop_skip[OF d True, of st b idx r c] by simp
    next
      case nu: False
      then have u0: "used AND bit_of d = 0" by simp
      have free: "\<not> (\<exists>q\<in>grid. peer (r, c) q \<and> cell b q = digit_char d)" using nu ubit by simp
      define st1 where "st1 = fst (place st b r c d)"
      define b1 where "b1 = snd (place st b r c d)"
      have pl: "place st b r c d = (st1, b1)" by (simp add: st1_def b1_def)
      have b1: "b1 = set_cell b r c (digit_char d)" by (simp add: b1_def place_fst_snd)
      have e1: "empties st1 = empties st" by (simp add: st1_def)
      have i1: "search_inv st1 b1 (idx + 1)"
        using search_inv_place[OF i lt rc d] by (simp add: st1_def b1_def)
      have x1: "extends b b1" unfolding b1 by (rule extends_set_cell[OF e])
      have nc1: "no_clash b \<longrightarrow> no_clash b1"
        unfolding b1 using no_clash_set_cell[OF _ ib g free] by blast
      have c1: "config_ok st b (st1, b1)" by (rule config_ok_placed[OF i1 x1 e1])
      have ib': "\<not> \<not> in_bounds b r c" using ib by simp
      obtain res1 where res1: "dfs st1 b1 (idx + 1) = Some res1" and ok1: "run_ok st1 b1 (\<lambda>s. False) res1"
        using "2.IH"(2)[OF False nu ib' refl] i1 unfolding st1_def b1_def by blast
      obtain ok2 st2 b2 tr where r1: "res1 = (ok2, st2, b2, tr)" by (cases res1) auto
      show ?thesis
      proof (cases ok2)
        case True
        have ok1': "run_ok st1 b1 (\<lambda>s. False) (True, st2, b2, tr)" using ok1 r1 True by simp
        have "run_ok st b (?ex d) (True, st2, b2, (st1, b1) # tr)"
          using ok1' c1 e1 x1 nc1 config_ok_trans[OF _ x1 e1] extends_trans[OF x1]
          unfolding run_ok_True by auto
        moreover have "dfs_loop st b idx r c used d = Some (True, st2, b2, (st1, b1) # tr)"
          using dfs_loop_success[OF d u0 ib, of st idx st2 b2 tr] res1 r1 True
          by (simp add: pl)
        ultimately show ?thesis by simp
      next
        case f: False
        have ok1': "run_ok st1 b1 (\<lambda>s. False) (False, st2, b2, tr)" using ok1 r1 f by simp
        then have same: "st2 = st1" "b2 = b1" and nosol: "\<And>s. \<not> is_solution b1 s"
          and trok: "\<forall>cfg\<in>set tr. config_ok st1 b1 cfg"
          unfolding run_ok_False by auto
        have ib2: "in_bounds b2 r c" using i1 r9 board_ok_in_bounds unfolding same search_inv_def by blast
        have bt: "backtrack st2 b2 r c d = (st, b)"
          unfolding same st1_def b1_def
          by (rule backtrack_place[OF ib]) (use e u0 used in \<open>simp_all add: cell_def\<close>)
        have dres: "dfs (fst (place st b r c d)) (snd (place st b r c d)) (idx + 1) = Some (False, st2, b2, tr)"
          using res1 r1 f by (simp add: st1_def b1_def)
        have ib2': "\<not> \<not> in_bounds b2 r c" using ib2 by simp
        obtain res' where res': "dfs_loop st b idx r c used (d + 1) = Some res'"
          and ok': "run_ok st b (?ex (d + 1)) res'"
          using "2.IH"(3)[OF False nu ib' refl dres refl refl refl not_False_eq_True[THEN iffD2, OF TrueI] ib2' refl] i lt rc used
          unfolding bt by auto
        obtain ok4 st4 b4 tr' where r': "res' = (ok4, st4, b4, tr')" by (cases res') auto
        have okd: "run_ok st b (?ex d) res'"
        proof (rule run_ok_weaken[OF ok'])
          fix s assume s: "is_solution b s" and n: "?ex (d + 1) s"
          have "cell s (r, c) \<noteq> digit_char d"
          proof
            assume "cell s (r, c) = digit_char d"
            then have "is_solution b1 s" unfolding b1 by (rule solution_set_cell[OF s ib])
            then show False using nosol by blast
          qed
          then show "?ex d s" using n by (metis Suc_eq_plus1 Suc_leI le_neq_implies_less)
        qed
        have tr_all: "\<forall>cfg\<in>set ((st1, b1) # tr @ (st, b) # tr'). config_ok st b cfg"
          using c1 trok config_ok_trans[OF _ x1 e1] config_ok_inv[OF i] okd
          unfolding r' run_ok_def by auto
        have "run_ok st b (?ex d) (ok4, st4, b4, (st1, b1) # tr @ (st, b) # tr')"
          using okd tr_all unfolding r' run_ok_def by simp
        moreover have "dfs_loop st b idx r c used d = Some (ok4, st4, b4, (st1, b1) # tr @ (st, b) # tr')"
          unfolding dfs_loop_retry[OF d u0 ib dres ib2] bt using res' r' pl by simp
        ultimately show ?thesis by simp
      qed
    qed
  qed
qed

lemma unit_add_nil: "unit_add ms ms u b []"
  by (simp add: unit_add_def)

lemma unit_add_append:
  "unit_add ms ms' u b xs \<Longrightarrow> unit_add ms' ms'' u b ys \<Longrightarrow> unit_add ms ms'' u b (xs @ ys)"
  unfolding unit_add_def by (simp add: bex_Un) blast

lemma scanned_nil: "solver_ok st \<Longrightarrow> scanned b [] st st"
  by (simp add: scanned_def unit_add_nil)

lemma scanned_append:
  "scanned b xs st st' \<Longrightarrow> scanned b ys st' st'' \<Longrightarrow> scanned b (xs @ ys) st st''"
  unfolding scanned_def using unit_add_append by auto

lemma unit_add_empty_cell:
  "cell b p = CHR ''.'' \<Longrightarrow> unit_add ms ms u b [p]"
  unfolding unit_add_def by simp (metis digit_char_not_dot)

lemma unit_add_digit_cell:
  assumes len: "length ms = 9" and u9: "u p < 9" and n: "n < 9" and cp: "cell b p = digit_char n"
  shows "unit_add ms (ms[u p := ms ! u p OR bit_of n]) u b [p]"
  unfolding unit_add_def
proof (intro allI impI)
  fix k m :: nat assume k: "k < 9"
  have dn: "digit_char n = digit_char m \<longleftrightarrow> n = m" if "m < 9" using digit_char_inj[OF n that] by auto
  show "bit (ms[u p := ms ! u p OR bit_of n] ! k) m \<longleftrightarrow>
          bit (ms ! k) m \<or> (m < 9 \<and> (\<exists>q\<in>set [p]. u q = k \<and> cell b q = digit_char m))"
  proof (cases "k = u p")
    case True
    then show ?thesis using len u9 n cp dn by (auto simp: bit_simps bit_bit_of)
  next
    case False
    then show ?thesis using len by auto
  qed
qed

lemma init_cell_scanned:
  assumes bo: "board_ok b" and so: "solver_ok st" and r: "r < 9" and c: "c < 9"
  shows "\<exists>st'. init_cell b r c st = Some st' \<and> scanned b [(r, c)] st st'"
proof -
  have ib: "in_bounds b r c" using bo r c by (rule board_ok_in_bounds)
  have g: "(r, c) \<in> grid" using r c by (simp add: grid_iff)
  have len: "length (rowMask st) = 9" "length (colMask st) = 9" "length (boxMask st) = 9"
    using so by (simp_all add: solver_ok_def)
  have bx: "boxIndex r c < 9" using r c by (rule boxIndex_less)
  from board_ok_cell[OF bo g] show ?thesis
  proof
    assume e: "cell b (r, c) = CHR ''.''"
    then have "init_cell b r c st = Some (st\<lparr>empties := empties st @ [(r, c)]\<rparr>)"
      using ib by (simp add: init_cell_def cell_def)
    moreover have "scanned b [(r, c)] st (st\<lparr>empties := empties st @ [(r, c)]\<rparr>)"
      using e so by (simp add: scanned_def solver_ok_def unit_add_empty_cell)
    ultimately show ?thesis by blast
  next
    assume "\<exists>n<9. cell b (r, c) = digit_char n"
    then obtain n where n: "n < 9" and cp: "cell b (r, c) = digit_char n" by blast
    let ?st' = "st\<lparr>rowMask := (rowMask st)[r := rowMask st ! r OR bit_of n],
                    colMask := (colMask st)[c := colMask st ! c OR bit_of n],
                    boxMask := (boxMask st)[boxIndex r c := boxMask st ! boxIndex r c OR bit_of n]\<rparr>"
    have ch: "b ! r ! c = digit_char n" using cp by (simp add: cell_def)
    have oc: "(of_char (digit_char n) :: nat) = 49 + n" by (rule of_char_digit_char[OF n])
    have nd: "digit_char n \<noteq> CHR ''.''" by (rule digit_char_not_dot[OF n])
    have "init_cell b r c st = Some ?st'"
      using ib n nd by (simp add: init_cell_def ch oc Let_def)
    moreover have "scanned b [(r, c)] st ?st'"
      using unit_add_digit_cell[OF len(1) _ n cp, of fst] unit_add_digit_cell[OF len(2) _ n cp, of snd]
        unit_add_digit_cell[OF len(3) _ n cp, of box_of] r c bx len nd cp
      by (simp add: scanned_def solver_ok_def box_of_def)
    ultimately show ?thesis by blast
  qed
qed

lemma init_cols_scanned:
  assumes bo: "board_ok b" and r: "r < 9"
  shows "solver_ok st \<Longrightarrow> \<forall>c\<in>set cs. c < 9 \<Longrightarrow>
         \<exists>st'. init_cols b r cs st = Some st' \<and> scanned b (map (Pair r) cs) st st'"
proof (induction cs arbitrary: st)
  case Nil
  then show ?case by (simp add: scanned_nil)
next
  case (Cons c cs)
  then have c: "c < 9" by simp
  obtain st1 where s1: "init_cell b r c st = Some st1" "scanned b [(r, c)] st st1"
    using init_cell_scanned[OF bo Cons.prems(1) r c] by blast
  have "solver_ok st1" using s1(2) by (simp add: scanned_def)
  then obtain st2 where s2: "init_cols b r cs st1 = Some st2" "scanned b (map (Pair r) cs) st1 st2"
    using Cons.IH[of st1] Cons.prems(2) by auto
  have "scanned b ([(r, c)] @ map (Pair r) cs) st st2" using s1(2) s2(2) by (rule scanned_append)
  then show ?case using s1(1) s2(1) by simp
qed

lemma init_rows_scanned:
  assumes bo: "board_ok b"
  shows "solver_ok st \<Longrightarrow> \<forall>r\<in>set rs. r < 9 \<Longrightarrow>
         \<exists>st'. init_rows b rs st = Some st' \<and>
               scanned b (concat (map (\<lambda>r. map (Pair r) [0..<9]) rs)) st st'"
proof (induction rs arbitrary: st)
  case Nil
  then show ?case by (simp add: scanned_nil)
next
  case (Cons r rs)
  then have r: "r < 9" by simp
  obtain st1 where s1: "init_cols b r [0..<9] st = Some st1" "scanned b (map (Pair r) [0..<9]) st st1"
    using init_cols_scanned[OF bo r Cons.prems(1), of "[0..<9]"] by auto
  have "solver_ok st1" using s1(2) by (simp add: scanned_def)
  then obtain st2 where s2: "init_rows b rs st1 = Some st2"
      "scanned b (concat (map (\<lambda>r. map (Pair r) [0..<9]) rs)) st1 st2"
    using Cons.IH[of st1] Cons.prems(2) by auto
  have "scanned b (map (Pair r) [0..<9] @ concat (map (\<lambda>r. map (Pair r) [0..<9]) rs)) st st2"
    using s1(2) s2(2) by (rule scanned_append)
  then show ?case using s1(1) s2(1) by simp
qed

lemma init_scanned:
  assumes "board_ok b" "solver_ok st"
  shows "\<exists>st'. init st b = Some st' \<and> scanned b all_cells (st\<lparr>empties := []\<rparr>) st'"
proof -
  have "solver_ok (st\<lparr>empties := []\<rparr>)" using assms(2) by (simp add: solver_ok_def)
  then show ?thesis
    using init_rows_scanned[OF assms(1), of "st\<lparr>empties := []\<rparr>" "[0..<9]"]
    unfolding init_def all_cells_def by auto
qed

lemma unit_add_zero_sem:
  assumes "unit_add (replicate 9 0) ms u b all_cells"
  shows "unit_sem ms u b"
  unfolding unit_sem_def
proof (intro allI impI)
  fix k n :: nat assume k: "k < 9"
  have "bit (ms ! k) n \<longleftrightarrow> bit (replicate 9 (0::32 word) ! k) n \<or>
          (n < 9 \<and> (\<exists>p\<in>set all_cells. u p = k \<and> cell b p = digit_char n))"
    using assms k unfolding unit_add_def by blast
  then show "bit (ms ! k) n \<longleftrightarrow> n < 9 \<and> (\<exists>p\<in>grid. u p = k \<and> cell b p = digit_char n)"
    using k by (simp add: set_all_cells)
qed

lemma pending_ok_start:
  assumes "empties st = filter (\<lambda>p. cell b p = CHR ''.'') all_cells"
  shows "pending_ok st b 0"
  unfolding pending_ok_def assms
  using distinct_all_cells by (auto simp: set_all_cells)

lemma init_fresh:
  assumes bo: "board_ok b"
  shows "\<exists>st0. init fresh b = Some st0 \<and> 
           empties st0 = filter (\<lambda>p. cell b p = CHR ''.'') all_cells \<and> search_inv st0 b 0"
proof -
  have so: "solver_ok fresh" by (simp add: fresh_def solver_ok_def)
  have fr: "fresh\<lparr>empties := []\<rparr> = fresh" by (simp add: fresh_def)
  obtain st0 where i: "init fresh b = Some st0" and sc: "scanned b all_cells fresh st0"
    using init_scanned[OF bo so] unfolding fr by blast
  have e: "empties st0 = filter (\<lambda>p. cell b p = CHR ''.'') all_cells"
    using sc by (simp add: scanned_def fresh_def)
  have "unit_sem (rowMask st0) fst b" "unit_sem (colMask st0) snd b" "unit_sem (boxMask st0) box_of b"
    using sc unit_add_zero_sem unfolding scanned_def fresh_def by simp_all
  then have mc: "mask_consistent st0 b" by (simp add: mask_consistent_iff)
  have "solver_ok st0" using sc by (simp add: scanned_def)
  then have "search_inv st0 b 0"
    using bo mc pending_ok_start[OF e] by (simp add: search_inv_def)
  then show ?thesis using i e by blast
qed

lemma final_solved:
  assumes i: "search_inv st b (length (empties st))" and nc: "no_clash b"
  shows "solved b"
proof (rule solvedI)
  show "board_ok b" using i by (simp add: search_inv_def)
  show "no_clash b" by (rule nc)
  fix p assume "p \<in> grid"
  then show "cell b p \<noteq> CHR ''.''"
    using i unfolding search_inv_def pending_ok_def by simp
qed

lemma solve_fresh:
  assumes bo: "board_ok b"
  shows "\<exists>st0 ok st' b' tr. init fresh b = Some st0 \<and> search_inv st0 b 0 \<and>
           empties st0 = filter (\<lambda>p. cell b p = CHR ''.'') all_cells \<and>
           dfs st0 b 0 = Some (ok, st', b', tr) \<and> run_ok st0 b (\<lambda>s. False) (ok, st', b', tr) \<and>
           solveSudoku fresh b = Some (st', b', (st0, b) # tr)"
proof -
  obtain st0 where i: "init fresh b = Some st0" and e: "empties st0 = filter (\<lambda>p. cell b p = CHR ''.'') all_cells"
    and inv: "search_inv st0 b 0"
    using init_fresh[OF bo] by blast
  obtain res where d: "dfs st0 b 0 = Some res" and r: "run_ok st0 b (\<lambda>s. False) res"
    using dfs_run_ok(1)[OF inv] by blast
  obtain ok st' b' tr where res: "res = (ok, st', b', tr)" by (cases res) auto
  have "solveSudoku fresh b = Some (st', b', (st0, b) # tr)"
    using i d res by (simp add: solveSudoku_def)
  then show ?thesis using i e inv d r res by blast
qed

lemma run_ok_success_solved:
  assumes r: "run_ok st0 b ex (True, st', b', tr)" and nc: "no_clash b"
  shows "solved b' \<and> is_solution b b'"
proof -
  have i: "search_inv st' b' (length (empties st'))" and x: "extends b b'" and nc': "no_clash b'"
    using r nc unfolding run_ok_True by simp_all
  have "solved b'" using i nc' by (rule final_solved)
  then show ?thesis using x by (simp add: is_solution_def)
qed

lemma board_eqI:
  assumes a: "board_ok a" and b: "board_ok b" and eq: "\<And>p. p \<in> grid \<Longrightarrow> cell a p = cell b p"
  shows "a = b"
proof (rule nth_equalityI)
  show "length a = length b" using a b by (simp add: board_ok_def)
next
  fix i assume "i < length a"
  then have i: "i < 9" using a by (simp add: board_ok_def)
  have la: "length (a ! i) = 9" using a i unfolding board_ok_def by (metis nth_mem)
  have lb: "length (b ! i) = 9" using b i unfolding board_ok_def by (metis nth_mem)
  show "a ! i = b ! i"
  proof (rule nth_equalityI)
    show "length (a ! i) = length (b ! i)" using la lb by simp
  next
    fix j assume "j < length (a ! i)"
    then have "(i, j) \<in> grid" using la i by (simp add: grid_iff)
    from eq[OF this] show "a ! i ! j = b ! i ! j" by (simp add: cell_def)
  qed
qed

lemma single_gap_unique:
  assumes t: "solved t" and rc: "(r, c) \<in> grid" and s: "is_solution (set_cell t r c CHR ''.'') s"
  shows "s = t"
proof (rule board_eqI)
  show "board_ok s" using s by (simp add: is_solution_def solved_def)
  show bt: "board_ok t" using t by (simp add: solved_def)
  have r9: "r < 9" "c < 9" using rc by (simp_all add: grid_iff)
  have nct: "no_clash t" using t by (rule solved_no_clash)
  have other: "cell s p = cell t p" if "p \<in> grid" "p \<noteq> (r, c)" for p
  proof -
    have "cell (set_cell t r c CHR ''.'') p = cell t p" using that(2) by (rule cell_set_cell_other)
    moreover have "cell t p \<noteq> CHR ''.''" using t that(1) by (simp add: solved_def set_all_cells)
    ultimately show ?thesis
      using s that(1) unfolding is_solution_def extends_def set_all_cells by auto
  qed
  obtain m where m: "m < 9" "cell t (r, c) = digit_char m" using solved_filled[OF t rc] by blast
  have "occurrences s (row_cells r) m = 1"
    using s r9(1) m(1) unfolding is_solution_def solved_def by simp
  then have "0 < occurrences s (row_cells r) m" by simp
  then obtain q where q: "q \<in> set (row_cells r)" "cell s q = digit_char m"
    unfolding occurrences_pos by blast
  have qg: "q \<in> grid" and qr: "fst q = r" using q(1) r9 by (simp_all add: set_row_cells grid_iff)
  have "q = (r, c)"
  proof (rule ccontr)
    assume ne: "q \<noteq> (r, c)"
    then have "cell t q = digit_char m" using other[OF qg] q(2) by simp
    moreover have "peer q (r, c)" using qr by (simp add: peer_def)
    ultimately show False using no_clash_same_digit[OF nct qg rc _ _ m(2) m(1)] ne by blast
  qed
  then have here: "cell s (r, c) = cell t (r, c)" using q(2) m(2) by simp
  fix p assume "p \<in> grid"
  then show "cell s p = cell t p" using other here by (cases "p = (r, c)") auto
qed

lemma board_ok_solved_board: "board_ok solved_board"
  by code_simp

lemma solved_solved_board: "solved solved_board"
proof (rule solvedI[OF board_ok_solved_board])
  have "units_distinct solved_board" by code_simp
  then show "no_clash solved_board" by (rule units_distinct_no_clash)
  have "\<forall>p\<in>set all_cells. cell solved_board p \<noteq> CHR ''.''" by code_simp
  then show "\<And>p. p \<in> grid \<Longrightarrow> cell solved_board p \<noteq> CHR ''.''" by (simp add: set_all_cells)
qed

lemma board_ok_gap_board: "board_ok gap_board"
  unfolding gap_board_def by (rule board_ok_set_cell[OF board_ok_solved_board]) simp

lemma prefix_valid_gap_board: "prefix_valid gap_board"
proof -
  have "units_distinct gap_board" by code_simp
  then show ?thesis by (intro no_clash_prefix_valid units_distinct_no_clash)
qed

lemma extends_blank:
  assumes "in_bounds t r c"
  shows "extends (set_cell t r c CHR ''.'') t"
  unfolding extends_def
proof (intro ballI impI)
  fix p assume "cell (set_cell t r c CHR ''.'') p \<noteq> CHR ''.''"
  then have "p \<noteq> (r, c)" using cell_set_cell_same[OF assms, of "CHR ''.''"] by auto
  then show "cell t p = cell (set_cell t r c CHR ''.'') p" by (simp add: cell_set_cell_other)
qed

lemma gap_board_solution: "is_solution gap_board s \<longleftrightarrow> s = solved_board"
proof
  assume "is_solution gap_board s"
  then show "s = solved_board"
    unfolding gap_board_def by (intro single_gap_unique[OF solved_solved_board]) (simp_all add: grid_iff)
next
  assume "s = solved_board"
  moreover have "extends gap_board solved_board"
    unfolding gap_board_def
    by (rule extends_blank[OF board_ok_in_bounds[OF board_ok_solved_board]]) simp_all
  ultimately show "is_solution gap_board s" using solved_solved_board by (simp add: is_solution_def)
qed

section \<open>The claims about \<open>init\<close> and the masks\<close>

text \<open>
  Claim C7. On a freshly constructed object (all masks zero, \<open>empties\<close> empty) and any 9x9
  board of \<open>'1'..'9'\<close> and \<open>'.'\<close>, \<open>init\<close> returns with \<open>empties\<close> equal to the
  coordinates of the \<open>'.'\<close> cells in row-major order; for every filled cell \<open>(r, c)\<close> with
  digit \<open>d + 1\<close>, bit \<open>d\<close> is set in \<open>rowMask[r]\<close>, \<open>colMask[c]\<close> and
  \<open>boxMask[(r/3)*3 + c/3]\<close>; and no other bit is set (a bit of a mask is set only when
  its digit stands in that row, column or box).
\<close>

theorem init_fresh_result:
  assumes "board_ok b"
  shows "\<exists>st'. init fresh b = Some st' \<and>
           empties st' = filter (\<lambda>p. cell b p = CHR ''.'') all_cells \<and>
           (\<forall>p\<in>grid. \<forall>d<9. cell b p = digit_char d \<longrightarrow>
              bit (rowMask st' ! fst p) d \<and> bit (colMask st' ! snd p) d \<and>
              bit (boxMask st' ! boxIndex (fst p) (snd p)) d) \<and>
           mask_consistent st' b"
proof -
  obtain st' where i: "init fresh b = Some st'"
    and e: "empties st' = filter (\<lambda>p. cell b p = CHR ''.'') all_cells" and inv: "search_inv st' b 0"
    using init_fresh[OF assms] by blast
  have mc: "mask_consistent st' b" using inv by (simp add: search_inv_def)
  then have sem: "unit_sem (rowMask st') fst b" "unit_sem (colMask st') snd b" "unit_sem (boxMask st') box_of b"
    by (simp_all add: mask_consistent_iff)
  have "bit (rowMask st' ! fst p) d \<and> bit (colMask st' ! snd p) d \<and>
        bit (boxMask st' ! boxIndex (fst p) (snd p)) d"
    if p: "p \<in> grid" and d: "d < 9" and c: "cell b p = digit_char d" for p d
  proof -
    have p9: "fst p < 9" "snd p < 9" using p by (simp_all add: grid_iff)
    have bx: "box_of p < 9" unfolding box_of_def using p9 by (rule boxIndex_less)
    have "bit (rowMask st' ! fst p) d" using sem(1) p9(1) p d c unfolding unit_sem_def by blast
    moreover have "bit (colMask st' ! snd p) d" using sem(2) p9(2) p d c unfolding unit_sem_def by blast
    moreover have "bit (boxMask st' ! box_of p) d" using sem(3) bx p d c unfolding unit_sem_def by blast
    ultimately show ?thesis by (simp add: box_of_def)
  qed
  then show ?thesis using i e mc by blast
qed

text \<open>Claim C7 on the grid whose last cell is empty: \<open>empties\<close> is that one cell, and
  the \<open>'5'\<close> of cell \<open>(0, 0)\<close> sets bit 4 of \<open>rowMask[0]\<close>.\<close>

theorem init_fresh_result_witness:
  "board_ok gap_board \<and>
   (\<exists>st'. init fresh gap_board = Some st' \<and> empties st' = [(8, 8)] \<and>
      bit (rowMask st' ! 0) 4 \<and> mask_consistent st' gap_board)"
proof -
  obtain st' where i: "init fresh gap_board = Some st'"
    and e: "empties st' = filter (\<lambda>p. cell gap_board p = CHR ''.'') all_cells"
    and b: "\<forall>p\<in>grid. \<forall>d<9. cell gap_board p = digit_char d \<longrightarrow>
              bit (rowMask st' ! fst p) d \<and> bit (colMask st' ! snd p) d \<and>
              bit (boxMask st' ! boxIndex (fst p) (snd p)) d"
    and mc: "mask_consistent st' gap_board"
    using init_fresh_result[OF board_ok_gap_board] by blast
  have "filter (\<lambda>p. cell gap_board p = CHR ''.'') all_cells = [(8, 8)]" by code_simp
  have "cell gap_board (0, 0) = digit_char 4" by code_simp
  moreover have "(0, 0) \<in> grid" "(4::nat) < 9" by (simp_all add: grid_iff)
  ultimately have "bit (rowMask st' ! fst (0::nat, 0::nat)) 4" using b by blast
  then have "bit (rowMask st' ! 0) 4" by simp
  moreover note \<open>filter (\<lambda>p. cell gap_board p = CHR ''.'') all_cells = [(8, 8)]\<close>
  ultimately show ?thesis using i e mc board_ok_gap_board by auto
qed

text \<open>
  Claim C2. Mask consistency holds in every configuration of a search started by
  \<open>solveSudoku\<close> on a fresh object: after \<open>init\<close>, after every placement and after every
  removal that \<open>dfs\<close> performs (the history), and on return. In each of them a filled cell
  has its bit set in the masks of its row, column and box, and every set bit of a mask
  belongs to a filled cell of that row, column or box.
\<close>

theorem masks_consistent_during_search:
  assumes "board_ok b"
  shows "\<exists>st' b' tr. solveSudoku fresh b = Some (st', b', tr) \<and>
           (\<forall>cfg\<in>set tr. mask_consistent (fst cfg) (snd cfg)) \<and> mask_consistent st' b'"
proof -
  obtain st0 ok st' b' tr where inv: "search_inv st0 b 0"
    and r: "run_ok st0 b (\<lambda>s. False) (ok, st', b', tr)"
    and s: "solveSudoku fresh b = Some (st', b', (st0, b) # tr)"
    using solve_fresh[OF assms] by blast
  have m0: "mask_consistent st0 b" using inv by (simp add: search_inv_def)
  have tr: "\<forall>cfg\<in>set tr. mask_consistent (fst cfg) (snd cfg)"
    using r unfolding run_ok_def config_ok_def by simp
  have "mask_consistent st' b'"
  proof (cases ok)
    case True
    then show ?thesis using r by (simp add: run_ok_True search_inv_def)
  next
    case False
    then show ?thesis using r m0 by (simp add: run_ok_False)
  qed
  then show ?thesis using s m0 tr by simp
qed

text \<open>Claim C2 on the grid whose last cell is empty: the history has two configurations,
  the one after \<open>init\<close> and the one after the placement of \<open>'9'\<close>.\<close>

theorem masks_consistent_during_search_witness:
  "board_ok gap_board \<and>
   (\<exists>st' b' tr. solveSudoku fresh gap_board = Some (st', b', tr) \<and> length tr = 2 \<and>
      (\<forall>cfg\<in>set tr. mask_consistent (fst cfg) (snd cfg)) \<and> mask_consistent st' b')"
proof -
  obtain st' b' tr where s: "solveSudoku fresh gap_board = Some (st', b', tr)"
    and m: "\<forall>cfg\<in>set tr. mask_consistent (fst cfg) (snd cfg)" "mask_consistent st' b'"
    using masks_consistent_during_search[OF board_ok_gap_board] by blast
  have "map_option (\<lambda>res. length (snd (snd res))) (solveSudoku fresh gap_board) = Some 2"
    by code_simp
  then have "length tr = 2" using s by simp
  then show ?thesis using s m board_ok_gap_board by blast
qed

section \<open>The claims about the search\<close>

lemma gap_board_unique: "\<exists>!s. is_solution gap_board s"
  by (simp add: gap_board_solution)

lemma extends_keeps_digit:
  "is_solution b s \<Longrightarrow> p \<in> grid \<Longrightarrow> n < 9 \<Longrightarrow> cell b p = digit_char n \<Longrightarrow> cell s p = digit_char n"
  using digit_char_not_dot[of n] unfolding is_solution_def extends_def set_all_cells by auto

lemma clash_no_solution:
  assumes "p \<in> grid" "q \<in> grid" "p \<noteq> q" "peer p q" "n < 9"
    "cell b p = digit_char n" "cell b q = digit_char n"
  shows "\<not> is_solution b s"
proof
  assume s: "is_solution b s"
  have nc: "no_clash s" using s by (simp add: is_solution_def solved_no_clash)
  have "cell s p = digit_char n" "cell s q = digit_char n"
    using extends_keeps_digit[OF s _ assms(5)] assms by simp_all
  then show False using no_clash_same_digit[OF nc assms(1,2,4) _ _ assms(5)] assms(3) by simp
qed

lemma dead_cell_no_solution:
  assumes p: "p \<in> grid" and e: "cell b p = CHR ''.''"
    and used: "\<And>n. n < 9 \<Longrightarrow> \<exists>q\<in>grid. peer p q \<and> cell b q = digit_char n"
  shows "\<not> is_solution b s"
proof
  assume s: "is_solution b s"
  obtain r c where rc: "p = (r, c)" by (cases p) auto
  obtain n where n: "n < 9" "cell s p = digit_char n"
    using solved_filled[of s p] s p by (auto simp: is_solution_def)
  obtain q where q: "q \<in> grid" "peer p q" "cell b q = digit_char n" using used[OF n(1)] by blast
  show False
    using solution_avoids_used[OF s _ _ q(1) _ _ n(1), of r c] p e q n unfolding rc by simp
qed

text \<open>
  Claim C6. \<open>solveSudoku\<close> writes only to cells that were empty in the input: in every
  configuration of the history (after \<open>init\<close>, after every placement and every removal)
  and on return, each cell that held a digit in the input holds that digit; and
  \<open>empties\<close> is in all of them the list that \<open>init\<close> built.
\<close>

theorem filled_cells_untouched:
  assumes "board_ok b"
  shows "\<exists>st0 st' b' tr. init fresh b = Some st0 \<and> solveSudoku fresh b = Some (st', b', tr) \<and>
           (\<forall>cfg\<in>set tr. extends b (snd cfg) \<and> empties (fst cfg) = empties st0) \<and>
           extends b b' \<and> empties st' = empties st0"
proof -
  obtain st0 ok st' b' tr where i: "init fresh b = Some st0"
    and r: "run_ok st0 b (\<lambda>s. False) (ok, st', b', tr)"
    and s: "solveSudoku fresh b = Some (st', b', (st0, b) # tr)"
    using solve_fresh[OF assms] by blast
  have tr: "\<forall>cfg\<in>set tr. extends b (snd cfg) \<and> empties (fst cfg) = empties st0"
    using r unfolding run_ok_def config_ok_def by simp
  have e: "empties st' = empties st0" using r unfolding run_ok_def by simp
  have "extends b b'"
  proof (cases ok)
    case True
    then show ?thesis using r by (simp add: run_ok_True)
  next
    case False
    then show ?thesis using r by (simp add: run_ok_False extends_refl)
  qed
  then show ?thesis using i s tr e by (simp add: extends_refl)
qed

text \<open>Claim C6 on the grid whose last cell is empty.\<close>

theorem filled_cells_untouched_witness:
  "board_ok gap_board \<and>
   (\<exists>st0 st' b' tr. init fresh gap_board = Some st0 \<and>
      solveSudoku fresh gap_board = Some (st', b', tr) \<and>
      (\<forall>cfg\<in>set tr. extends gap_board (snd cfg) \<and> empties (fst cfg) = empties st0) \<and>
      extends gap_board b' \<and> empties st' = empties st0)"
  using filled_cells_untouched[OF board_ok_gap_board] board_ok_gap_board by simp

text \<open>
  Claim C5. On every 9x9 board of \<open>'1'..'9'\<close> and \<open>'.'\<close> the search returns: \<open>init\<close> and
  the root call of \<open>dfs\<close> both produce a result (\<open>dfs\<close> is a total function, by the
  termination proof above, and no access leaves its array), whether or not the board
  has a completion. When the filled cells respect the rules and the board has exactly
  one solution, the root call returns \<open>true\<close>.
\<close>

theorem search_terminates:
  assumes "board_ok b"
  shows "\<exists>st0 ok st' b' tr. init fresh b = Some st0 \<and> dfs st0 b 0 = Some (ok, st', b', tr) \<and>
           (prefix_valid b \<and> (\<exists>!s. is_solution b s) \<longrightarrow> ok)"
proof -
  obtain st0 ok st' b' tr where i: "init fresh b = Some st0"
    and d: "dfs st0 b 0 = Some (ok, st', b', tr)"
    and r: "run_ok st0 b (\<lambda>s. False) (ok, st', b', tr)"
    using solve_fresh[OF assms] by blast
  have "ok" if "\<exists>!s. is_solution b s"
  proof (rule ccontr)
    assume "\<not> ok"
    then have "\<forall>s. \<not> is_solution b s" using r by (simp add: run_ok_False)
    then show False using that by blast
  qed
  then show ?thesis using i d by blast
qed

text \<open>Claim C5 on the grid whose last cell is empty, which has exactly one solution.\<close>

theorem search_terminates_witness:
  "board_ok gap_board \<and> prefix_valid gap_board \<and> (\<exists>!s. is_solution gap_board s) \<and>
   (\<exists>st0 st' b' tr. init fresh gap_board = Some st0 \<and>
      dfs st0 gap_board 0 = Some (True, st', b', tr))"
  using search_terminates[OF board_ok_gap_board] board_ok_gap_board prefix_valid_gap_board
    gap_board_unique by auto

text \<open>
  Claim C1. For every 9x9 board of \<open>'1'..'9'\<close> and \<open>'.'\<close> whose filled cells respect the
  rules and which has exactly one solution, \<open>solveSudoku\<close> on a fresh object returns with a
  board in which every cell holds a digit and every row, column and box holds each
  digit exactly once; the board keeps the filled cells of the input, so it is that
  unique solution.
\<close>

theorem solveSudoku_solves:
  assumes "board_ok b" and "prefix_valid b" and "\<exists>!s. is_solution b s"
  shows "\<exists>st' b' tr. solveSudoku fresh b = Some (st', b', tr) \<and> solved b' \<and>
           is_solution b b' \<and> (\<forall>s. is_solution b s \<longrightarrow> s = b')"
proof -
  obtain st0 ok st' b' tr where r: "run_ok st0 b (\<lambda>s. False) (ok, st', b', tr)"
    and s: "solveSudoku fresh b = Some (st', b', (st0, b) # tr)"
    using solve_fresh[OF assms(1)] by blast
  have nc: "no_clash b" using assms(1,2) by (rule prefix_valid_no_clash)
  have ok
  proof (rule ccontr)
    assume "\<not> ok"
    then have "\<forall>s. \<not> is_solution b s" using r by (simp add: run_ok_False)
    then show False using assms(3) by blast
  qed
  then have "run_ok st0 b (\<lambda>s. False) (True, st', b', tr)" using r by simp
  then have sol: "solved b' \<and> is_solution b b'" using nc by (rule run_ok_success_solved)
  then have "\<forall>s. is_solution b s \<longrightarrow> s = b'" using assms(3) by blast
  then show ?thesis using s sol by blast
qed

text \<open>Claim C1 on the grid whose last cell is empty: the call returns the completed
  grid.\<close>

theorem solveSudoku_solves_witness:
  "board_ok gap_board \<and> prefix_valid gap_board \<and> (\<exists>!s. is_solution gap_board s) \<and>
   (\<exists>st' tr. solveSudoku fresh gap_board = Some (st', solved_board, tr))"
proof -
  obtain st' b' tr where s: "solveSudoku fresh gap_board = Some (st', b', tr)"
    and sol: "is_solution gap_board b'"
    using solveSudoku_solves[OF board_ok_gap_board prefix_valid_gap_board gap_board_unique] by blast
  have "b' = solved_board" using sol by (simp add: gap_board_solution)
  then show ?thesis
    using s board_ok_gap_board prefix_valid_gap_board gap_board_unique by blast
qed

section \<open>Boards without a completion\<close>

lemma board_ok_dead_board: "board_ok dead_board"
  by code_simp

lemma prefix_valid_dead_board: "prefix_valid dead_board"
proof -
  have "units_distinct dead_board" by code_simp
  then show ?thesis by (intro no_clash_prefix_valid units_distinct_no_clash)
qed

lemma dead_board_no_solution: "\<not> (\<exists>s. is_solution dead_board s)"
proof -
  have all: "\<forall>n\<in>set [0..<9]. \<exists>q\<in>set all_cells. peer (0, 0) q \<and> cell dead_board q = digit_char n"
    by code_simp
  have "\<not> is_solution dead_board s" for s
  proof (rule dead_cell_no_solution[of "(0, 0)"])
    show "(0, 0) \<in> grid" by (simp add: grid_iff)
    show "cell dead_board (0, 0) = CHR ''.''" by code_simp
    fix n :: nat assume "n < 9"
    then show "\<exists>q\<in>grid. peer (0, 0) q \<and> cell dead_board q = digit_char n"
      using all by (simp add: set_all_cells)
  qed
  then show ?thesis by blast
qed

lemma board_ok_clash_board: "board_ok clash_board"
  unfolding clash_board_def by (rule board_ok_set_cell[OF board_ok_gap_board]) (simp add: digit_set[symmetric])

lemma clash_board_no_solution: "\<not> (\<exists>s. is_solution clash_board s)"
proof -
  have c: "cell clash_board (0, 0) = digit_char 2" "cell clash_board (0, 1) = digit_char 2"
    by code_simp+
  have "\<not> is_solution clash_board s" for s
    by (rule clash_no_solution[of "(0, 0)" "(0, 1)" 2, OF _ _ _ _ _ c]) (simp_all add: grid_iff peer_def)
  then show ?thesis by blast
qed

text \<open>
  Claim C9, as amended. For every 9x9 board of \<open>'1'..'9'\<close> and \<open>'.'\<close> whose filled cells
  respect the rules and which has no legal completion, \<open>solveSudoku\<close> on a fresh object
  still returns; the root call of \<open>dfs\<close> returns \<open>false\<close> with every tentative placement
  undone, so the object is the one \<open>init\<close> left and the board on return is the input
  board; and \<open>solveSudoku\<close>, which returns \<open>void\<close>, hands the caller nothing but that
  unchanged board.
\<close>

theorem unsolvable_board_restored:
  assumes "board_ok b" and "prefix_valid b" and "\<not> (\<exists>s. is_solution b s)"
  shows "\<exists>st0 tr. init fresh b = Some st0 \<and> dfs st0 b 0 = Some (False, st0, b, tr) \<and>
           solveSudoku fresh b = Some (st0, b, (st0, b) # tr)"
proof -
  obtain st0 ok st' b' tr where i: "init fresh b = Some st0"
    and d: "dfs st0 b 0 = Some (ok, st', b', tr)"
    and r: "run_ok st0 b (\<lambda>s. False) (ok, st', b', tr)"
    and s: "solveSudoku fresh b = Some (st', b', (st0, b) # tr)"
    using solve_fresh[OF assms(1)] by blast
  have nc: "no_clash b" using assms(1,2) by (rule prefix_valid_no_clash)
  have nok: "\<not> ok"
  proof
    assume ok
    then have "run_ok st0 b (\<lambda>s. False) (True, st', b', tr)" using r by simp
    then have "solved b' \<and> is_solution b b'" using nc by (rule run_ok_success_solved)
    then show False using assms(3) by blast
  qed
  then have "st' = st0" "b' = b" using r by (simp_all add: run_ok_False)
  then show ?thesis using i d s nok by simp
qed

text \<open>Claim C9, as amended, on a board whose cell \<open>(0, 0)\<close> can take no digit: its row
  holds \<open>'1'..'8'\<close> and its column holds \<open>'9'\<close>.\<close>

theorem unsolvable_board_restored_witness:
  "board_ok dead_board \<and> prefix_valid dead_board \<and> \<not> (\<exists>s. is_solution dead_board s) \<and>
   (\<exists>st0 tr. init fresh dead_board = Some st0 \<and>
      dfs st0 dead_board 0 = Some (False, st0, dead_board, tr) \<and>
      solveSudoku fresh dead_board = Some (st0, dead_board, (st0, dead_board) # tr))"
  using unsolvable_board_restored[OF board_ok_dead_board prefix_valid_dead_board dead_board_no_solution]
    board_ok_dead_board prefix_valid_dead_board dead_board_no_solution by blast

text \<open>
  Claim C9 as stated, for every board without a legal completion, fails. The board
  below holds \<open>'3'\<close> twice in row 0, so it has no completion; its only empty cell is
  \<open>(8, 8)\<close>. \<open>init\<close> does not check the filled cells, \<open>dfs\<close> finds the free digit \<open>'9'\<close>
  for the empty cell and returns \<open>true\<close>, and the board on return differs from the input.
\<close>

theorem unsolvable_board_counterexample:
  "board_ok clash_board \<and> \<not> (\<exists>s. is_solution clash_board s) \<and>
   (\<exists>st0 st' b' tr. init fresh clash_board = Some st0 \<and>
      dfs st0 clash_board 0 = Some (True, st', b', tr) \<and> b' \<noteq> clash_board)"
proof -
  have "case init fresh clash_board of
          None \<Rightarrow> False
        | Some st0 \<Rightarrow>
            (case dfs st0 clash_board 0 of
               None \<Rightarrow> False
             | Some (ok, st', b', tr) \<Rightarrow> ok \<and> b' \<noteq> clash_board)"
    by code_simp
  then have "\<exists>st0 st' b' tr. init fresh clash_board = Some st0 \<and>
      dfs st0 clash_board 0 = Some (True, st', b', tr) \<and> b' \<noteq> clash_board"
    by (auto split: option.splits)
  then show ?thesis using board_ok_clash_board clash_board_no_solution by blast
qed

end
